theory Spec2Isabelle
  imports Complex_Main
begin

section \<open>Text primitives\<close>

text \<open>
  Python strings are modelled as lists of characters with code points below 256.

  \<open>is_space\<close> is \<^verbatim>\<open>str.isspace\<close> on these code points; it is what
  \<^verbatim>\<open>str.split()\<close>, \<^verbatim>\<open>str.strip()\<close> and the regular expression class
  \<^verbatim>\<open>\s\<close> use.
\<close>

definition is_space :: "char \<Rightarrow> bool" where
  "is_space c \<longleftrightarrow>
     (of_char c :: nat) \<in> {9, 10, 11, 12, 13, 28, 29, 30, 31, 32, 133, 160}"

text \<open>The character class \<^verbatim>\<open>[a-zA-Z0-9_\-]\<close> of \<^verbatim>\<open>_TOKEN_RE\<close>.\<close>

definition is_token_char :: "char \<Rightarrow> bool" where
  "is_token_char c \<longleftrightarrow>
     (let n = (of_char c :: nat)
      in (97 \<le> n \<and> n \<le> 122) \<or> (65 \<le> n \<and> n \<le> 90) \<or> (48 \<le> n \<and> n \<le> 57)
         \<or> n = 95 \<or> n = 45)"

text \<open>
  The maximal runs of characters satisfying \<open>P\<close>, left to right: what
  \<^verbatim>\<open>re.findall\<close> returns for a pattern \<^verbatim>\<open>[...]+\<close>, and what
  \<^verbatim>\<open>str.split()\<close> returns for the non-whitespace characters. \<open>cur\<close> is the
  run being read.
\<close>

fun runs :: "(char \<Rightarrow> bool) \<Rightarrow> string \<Rightarrow> string \<Rightarrow> string list" where
  "runs P cur [] = (if cur = [] then [] else [cur])"
| "runs P cur (c # cs) =
     (if P c then runs P (cur @ [c]) cs
      else if cur = [] then runs P [] cs
      else cur # runs P [] cs)"

text \<open>\<^verbatim>\<open>str.lower\<close> on one character of a token (tokens are ASCII).\<close>

fun char_lower :: "char \<Rightarrow> char" where
  "char_lower (Char b0 b1 b2 b3 b4 b5 b6 b7) =
     (let n = (of_char (Char b0 b1 b2 b3 b4 b5 b6 b7) :: nat)
      in if 65 \<le> n \<and> n \<le> 90 then Char b0 b1 b2 b3 b4 True b6 b7
         else Char b0 b1 b2 b3 b4 b5 b6 b7)"

text \<open>\<^verbatim>\<open>section.split()\<close>, \<^verbatim>\<open>" ".join(ws)\<close> and \<^verbatim>\<open>chunk.strip()\<close>.\<close>

definition split_ws :: "string \<Rightarrow> string list" where
  "split_ws s = runs (\<lambda>c. \<not> is_space c) [] s"

fun join_sp :: "string list \<Rightarrow> string" where
  "join_sp [] = []"
| "join_sp [w] = w"
| "join_sp (w # v # ws) = w @ CHR '' '' # join_sp (v # ws)"

definition strip :: "string \<Rightarrow> string" where
  "strip s = rev (dropWhile is_space (rev (dropWhile is_space s)))"

text \<open>
  Python slicing \<^verbatim>\<open>xs[i:j]\<close> for integers \<open>i\<close>, \<open>j\<close>: a negative index counts
  from the end, and every index is clamped to the list.
\<close>

definition norm_index :: "nat \<Rightarrow> int \<Rightarrow> nat" where
  "norm_index n i = (if i < 0 then nat (max 0 (int n + i)) else min n (nat i))"

definition py_slice :: "'a list \<Rightarrow> int \<Rightarrow> int \<Rightarrow> 'a list" where
  "py_slice xs i j =
     (let a = norm_index (length xs) i; b = norm_index (length xs) j
      in take (b - a) (drop a xs))"

text \<open>
  \<^verbatim>\<open>list.sort(key=..., reverse=True)\<close> and \<^verbatim>\<open>sorted(..., reverse=True)\<close>: a stable
  sort by descending key, elements with equal keys keeping their original order.
\<close>

definition sort_reverse :: "('a \<Rightarrow> real) \<Rightarrow> 'a list \<Rightarrow> 'a list" where
  "sort_reverse key xs = sort_key (\<lambda>x. - key x) xs"

text \<open>\<^verbatim>\<open>round(x, ndigits)\<close>: to the nearest multiple of \<open>10^-ndigits\<close>, ties to even.\<close>

definition round_half_even :: "real \<Rightarrow> int" where
  "round_half_even y =
     (let f = \<lfloor>y\<rfloor>; d = y - of_int f
      in if d < 1 / 2 then f else if 1 / 2 < d then f + 1 else if even f then f else f + 1)"

definition py_round :: "real \<Rightarrow> nat \<Rightarrow> real" where
  "py_round x ndigits = of_int (round_half_even (x * 10 ^ ndigits)) / 10 ^ ndigits"

datatype py_error = KeyError | OSError | OtherError

section \<open>Floating-point arithmetic\<close>

text \<open>
  Python floats are IEEE 754 binary64 numbers. A finite double is represented by the
  real number it denotes; infinities, NaN and the sign of zero are not represented
  (the weights and scores computed below stay far from the overflow and underflow
  thresholds). What the arithmetic does with them is a parameter of the model, the
  record \<open>platform\<close>:

  \<^item> \<open>fdiv\<close>, \<open>fmul\<close> and \<open>fsqrt\<close> are \<^verbatim>\<open>/\<close>, \<^verbatim>\<open>*\<close> and
    \<^verbatim>\<open>math.sqrt\<close> on floats (and \<^verbatim>\<open>/\<close> on two integers);

  \<^item> \<open>log1p\<close> is \<^verbatim>\<open>math.log1p\<close>, the function of that name of the C library,
    whose last bit differs from one library to the next;

  \<^item> \<open>fsum\<close> is the built-in \<^verbatim>\<open>sum\<close> over floats taken in the given order
    (plain accumulation from the left up to CPython 3.11, compensated summation from
    3.12 on);

  \<^item> \<open>set_order\<close> is the order in which a set holding the given strings is
    iterated, which depends on the hash seed of the process.

  Every definition that computes with floats takes the platform as its first argument,
  and a theorem that does not name a platform holds for all of them.
\<close>

record platform =
  fdiv :: "real \<Rightarrow> real \<Rightarrow> real"
  fmul :: "real \<Rightarrow> real \<Rightarrow> real"
  fsqrt :: "real \<Rightarrow> real"
  log1p :: "real \<Rightarrow> real"
  fsum :: "real list \<Rightarrow> real"
  set_order :: "string list \<Rightarrow> string list"

text \<open>
  What the theorems about signs need of a platform: the operations map non-negative
  arguments to non-negative results, and iterating a set visits its elements.
\<close>

definition platform_ok :: "platform \<Rightarrow> bool" where
  "platform_ok fp \<longleftrightarrow>
     (\<forall>x y. 0 \<le> x \<and> 0 \<le> y \<longrightarrow> 0 \<le> fmul fp x y \<and> 0 \<le> fdiv fp x y)
     \<and> (\<forall>x. 0 \<le> x \<longrightarrow> 0 \<le> fsqrt fp x \<and> 0 \<le> log1p fp x)
     \<and> (\<forall>xs. list_all (\<lambda>x. 0 \<le> x) xs \<longrightarrow> 0 \<le> fsum fp xs)
     \<and> (\<forall>ks. set (set_order fp ks) = set ks)"

text \<open>The arithmetic of the real numbers, without any rounding.\<close>

definition exact :: platform where
  "exact = \<lparr>fdiv = (\<lambda>x y. x / y), fmul = (\<lambda>x y. x * y), fsqrt = sqrt,
             log1p = (\<lambda>x. ln (1 + x)), fsum = sum_list, set_order = (\<lambda>ks. ks)\<rparr>"

text \<open>
  \<open>rd x\<close> is the double nearest to the real number \<open>x\<close>, ties going to the even
  significand: with \<open>2^e \<le> |x| < 2^(e+1)\<close> the doubles around \<open>x\<close> are the
  multiples of \<open>2^(e-52)\<close>. (The exponent is not bounded here.) IEEE 754 defines
  division, multiplication, addition and the square root as the exact result rounded
  in this way.
\<close>

definition rd :: "real \<Rightarrow> real" where
  "rd x = (if x = 0 then 0
           else let e = \<lfloor>log 2 \<bar>x\<bar>\<rfloor>; u = 2 powr (of_int e - 52)
                in sgn x * (of_int (round_half_even (\<bar>x\<bar> / u)) * u))"

text \<open>
  CPython on a machine with IEEE arithmetic: the operations round the exact result,
  \<^verbatim>\<open>sum\<close> adds from the left starting at \<open>0\<close> (CPython up to 3.11),
  \<^verbatim>\<open>log1p\<close> returns the double nearest to \<open>ln (1 + x)\<close> (at the arguments that
  the examples of this development reach, the GNU C library on x86-64 returns this
  double), and a set is iterated in one of its possible orders.
\<close>

definition binary64 :: platform where
  "binary64 =
     \<lparr>fdiv = (\<lambda>x y. rd (x / y)), fmul = (\<lambda>x y. rd (x * y)), fsqrt = (\<lambda>x. rd (sqrt x)),
      log1p = (\<lambda>x. rd (ln (1 + x))),
      fsum = foldl (\<lambda>acc x. rd (acc + x)) 0, set_order = (\<lambda>ks. ks)\<rparr>"

section \<open>Tokenizer and sparse embedder\<close>

definition tokenize :: "string \<Rightarrow> string list" where
  "tokenize text =
     map (map char_lower) (filter (\<lambda>t. length t > 1) (runs is_token_char [] text))"

text \<open>
  \<^verbatim>\<open>collections.Counter\<close>: a dictionary from element to count, in order of first
  occurrence. Dictionaries whose order matters are association lists with distinct keys.
\<close>

fun counter_add :: "'a \<Rightarrow> ('a \<times> nat) list \<Rightarrow> ('a \<times> nat) list" where
  "counter_add t [] = [(t, 1)]"
| "counter_add t ((k, n) # kvs) =
     (if k = t then (k, Suc n) # kvs else (k, n) # counter_add t kvs)"

definition Counter :: "'a list \<Rightarrow> ('a \<times> nat) list" where
  "Counter tokens = foldl (\<lambda>acc t. counter_add t acc) [] tokens"

type_synonym sparse_vec = "(string \<times> real) list"

text \<open>
  \<^verbatim>\<open>_tfidf_embed\<close>. The counts are integers, \<^verbatim>\<open>count / total\<close> is the rounded
  quotient, and the weight is computed from \<open>tf_val\<close> in the order of the source:
  the quotient \<^verbatim>\<open>1.0 / tf_val\<close>, its \<^verbatim>\<open>log1p\<close>, then the product.
\<close>

definition tfidf_embed :: "platform \<Rightarrow> string \<Rightarrow> sparse_vec" where
  "tfidf_embed fp text =
     (let tokens = tokenize text
      in if tokens = [] then []
         else let counts = Counter tokens;
                  total = length tokens;
                  tf = map (\<lambda>(term, count). (term, fdiv fp (real count) (real total))) counts
              in map (\<lambda>(term, tf_val). (term, fmul fp tf_val (log1p fp (fdiv fp 1 tf_val)))) tf)"

text \<open>
  The weight the specification gives for a token with count \<open>c\<close> among \<open>n\<close> tokens,
  \<open>(c / n) * ln (1 + n / c)\<close>, in the arithmetic of the platform.
\<close>

definition spec_weight :: "platform \<Rightarrow> nat \<Rightarrow> nat \<Rightarrow> real" where
  "spec_weight fp c n = fmul fp (fdiv fp (real c) (real n)) (log1p fp (fdiv fp (real n) (real c)))"

text \<open>
  \<^verbatim>\<open>_cosine_sparse\<close>. \<open>common\<close> is \<^verbatim>\<open>set(a) & set(b)\<close>; the generator over it
  visits its elements in the iteration order of the set, and the two generators over
  \<^verbatim>\<open>a.values()\<close> and \<^verbatim>\<open>b.values()\<close> visit the weights in dictionary order.
  \<^verbatim>\<open>a[k]\<close> for a key of \<open>common\<close> is always present.
\<close>

definition cosine_sparse :: "platform \<Rightarrow> sparse_vec \<Rightarrow> sparse_vec \<Rightarrow> real" where
  "cosine_sparse fp a b =
     (let common = filter (\<lambda>k. k \<in> set (map fst b)) (map fst a)
      in if common = [] then 0
         else let dot = fsum fp (map (\<lambda>k. fmul fp (the (map_of a k)) (the (map_of b k)))
                                  (set_order fp common));
                  mag_a = fsqrt fp (fsum fp (map (\<lambda>v. fmul fp v v) (map snd a)));
                  mag_b = fsqrt fp (fsum fp (map (\<lambda>v. fmul fp v v) (map snd b)))
              in if mag_a = 0 \<or> mag_b = 0 then 0 else fdiv fp dot (fmul fp mag_a mag_b))"

text \<open>
  A well-formed sparse vector: a dictionary (no key twice) whose weights are not
  negative, as the data model requires of a stored sparse vector.
\<close>

definition sparse_ok :: "sparse_vec \<Rightarrow> bool" where
  "sparse_ok v \<longleftrightarrow> distinct (map fst v) \<and> list_all (\<lambda>w. 0 \<le> w) (map snd v)"

section \<open>Embeddings and documents\<close>

text \<open>
  The process environment of one call: the configured embedding backend, the two remote
  embedding services (\<open>None\<close> when the call fails or no credential is set), the
  \<^verbatim>\<open>GITHUB_RUN_ID\<close> variable, the clock reading and the UUID drawn by the call,
  and whether writing the store file succeeds.
\<close>

record environ =
  EMBED_BACKEND :: string
  embed_openai :: "string \<Rightarrow> real list option"
  embed_ollama :: "string \<Rightarrow> real list option"
  GITHUB_RUN_ID :: string
  utcnow :: string
  uuid4 :: string
  disk_ok :: bool

text \<open>
  The embedding dictionary. A key is \<open>None\<close> when the dictionary does not have it
  (an embedding loaded from a record without one is the empty dictionary); \<open>dense\<close> is
  also \<open>None\<close> when the key holds \<^verbatim>\<open>None\<close>.
\<close>

record embedding =
  backend :: "string option"
  sparse :: "sparse_vec option"
  dense :: "real list option"

definition embed_text :: "platform \<Rightarrow> environ \<Rightarrow> string \<Rightarrow> embedding" where
  "embed_text fp env text =
     (let sparse = tfidf_embed fp text;
          dense = (if EMBED_BACKEND env = ''openai'' then embed_openai env text
                   else if EMBED_BACKEND env = ''ollama'' then embed_ollama env text
                   else None)
      in \<lparr>backend = Some (EMBED_BACKEND env), sparse = Some sparse, dense = dense\<rparr>)"

definition empty_embedding :: embedding where
  "empty_embedding = \<lparr>backend = Some ''none'', sparse = Some [], dense = None\<rparr>"

text \<open>Metadata values are scalars; \<open>py_eq\<close> is Python's \<^verbatim>\<open>==\<close> on them.\<close>

datatype scalar = SNone | SBool bool | SNum real | SStr string

fun scalar_num :: "scalar \<Rightarrow> real option" where
  "scalar_num (SBool b) = Some (if b then 1 else 0)"
| "scalar_num (SNum x) = Some x"
| "scalar_num _ = None"

definition py_eq :: "scalar \<Rightarrow> scalar \<Rightarrow> bool" where
  "py_eq a b =
     (case (scalar_num a, scalar_num b) of
        (Some x, Some y) \<Rightarrow> x = y
      | _ \<Rightarrow> a = b)"

type_synonym metadata = "(string \<times> scalar) list"

definition dict_get :: "metadata \<Rightarrow> string \<Rightarrow> scalar" where
  "dict_get m k = (case map_of m k of None \<Rightarrow> SNone | Some v \<Rightarrow> v)"

record document =
  doc_id :: string
  content :: string
  embedding :: embedding
  metadata :: metadata
  timestamp :: string
  correlation_id :: string
  run_id :: string

text \<open>\<^verbatim>\<open>x or default\<close> for an optional string: \<^verbatim>\<open>None\<close> and \<^verbatim>\<open>""\<close> are falsy.\<close>

definition or_else :: "string option \<Rightarrow> string \<Rightarrow> string" where
  "or_else x d = (case x of None \<Rightarrow> d | Some s \<Rightarrow> if s = [] then d else s)"

text \<open>\<^verbatim>\<open>Document.__init__\<close>.\<close>

definition Document ::
  "environ \<Rightarrow> string \<Rightarrow> string \<Rightarrow> embedding \<Rightarrow> metadata option \<Rightarrow> string option
     \<Rightarrow> string option \<Rightarrow> string \<Rightarrow> document" where
  "Document env i c e md ts cid rid =
     \<lparr>doc_id = i, content = c, embedding = e,
      metadata = (case md of None \<Rightarrow> [] | Some m \<Rightarrow> m),
      timestamp = or_else ts (utcnow env),
      correlation_id = or_else cid (uuid4 env),
      run_id = or_else (Some rid) (GITHUB_RUN_ID env)\<rparr>"

text \<open>
  One line of the store file, as \<^verbatim>\<open>json.loads\<close> reads it: blank, not a record
  (\<^verbatim>\<open>json.loads\<close> or \<^verbatim>\<open>from_dict\<close> raises on it for another reason than a
  missing key), or a JSON object whose keys, where present, hold values of the types
  the record format gives them. The text encoding of JSON is not modelled.
\<close>

record stored =
  s_id :: "string option"
  s_content :: "string option"
  s_embedding :: "embedding option"
  s_metadata :: "metadata option"
  s_timestamp :: "string option"
  s_correlation_id :: "string option"
  s_run_id :: "string option"

datatype line = Blank | Malformed | Object stored

definition to_dict :: "document \<Rightarrow> stored" where
  "to_dict d =
     \<lparr>s_id = Some (doc_id d), s_content = Some (content d),
      s_embedding = Some (embedding d), s_metadata = Some (metadata d),
      s_timestamp = Some (timestamp d), s_correlation_id = Some (correlation_id d),
      s_run_id = Some (run_id d)\<rparr>"

definition from_dict :: "environ \<Rightarrow> stored \<Rightarrow> py_error + document" where
  "from_dict env d =
     (case s_id d of
        None \<Rightarrow> Inl KeyError
      | Some i \<Rightarrow>
          (case s_content d of
             None \<Rightarrow> Inl KeyError
           | Some c \<Rightarrow>
               Inr (Document env i c
                      (case s_embedding d of
                         None \<Rightarrow> \<lparr>backend = None, sparse = None, dense = None\<rparr>
                       | Some e \<Rightarrow> e)
                      (Some (case s_metadata d of None \<Rightarrow> [] | Some m \<Rightarrow> m))
                      (s_timestamp d) (s_correlation_id d)
                      (case s_run_id d of None \<Rightarrow> [] | Some r \<Rightarrow> r))))"

section \<open>The vector store\<close>

text \<open>
  A store instance: the in-memory index (a dictionary from id to document, in insertion
  order) and the file at its path (\<open>None\<close> when the file does not exist).
\<close>

record store =
  index :: "(string \<times> document) list"
  disk :: "line list option"

text \<open>\<^verbatim>\<open>d[k] = v\<close> on an insertion-ordered dictionary.\<close>

fun dict_set :: "'k \<Rightarrow> 'v \<Rightarrow> ('k \<times> 'v) list \<Rightarrow> ('k \<times> 'v) list" where
  "dict_set k v [] = [(k, v)]"
| "dict_set k v ((k', v') # kvs) =
     (if k' = k then (k, v) # kvs else (k', v') # dict_set k v kvs)"

text \<open>
  \<^verbatim>\<open>VectorStore._load\<close>: the loop over the lines of the file. \<open>envs n\<close> is the
  environment in which line \<open>n\<close> is read.
\<close>

fun load_lines ::
  "(nat \<Rightarrow> environ) \<Rightarrow> nat \<Rightarrow> line list \<Rightarrow> (string \<times> document) list
     \<Rightarrow> (string \<times> document) list" where
  "load_lines envs n [] idx = idx"
| "load_lines envs n (l # ls) idx =
     (case l of
        Blank \<Rightarrow> load_lines envs (Suc n) ls idx
      | Malformed \<Rightarrow> load_lines envs (Suc n) ls idx
      | Object d \<Rightarrow>
          (case from_dict (envs n) d of
             Inl err \<Rightarrow> load_lines envs (Suc n) ls idx
           | Inr doc \<Rightarrow> load_lines envs (Suc n) ls (dict_set (doc_id doc) doc idx)))"

definition load :: "(nat \<Rightarrow> environ) \<Rightarrow> line list option \<Rightarrow> (string \<times> document) list" where
  "load envs f = (case f of None \<Rightarrow> [] | Some ls \<Rightarrow> load_lines envs 0 ls [])"

text \<open>\<^verbatim>\<open>VectorStore.__init__\<close> on the file at the store's path.\<close>

definition VectorStore :: "(nat \<Rightarrow> environ) \<Rightarrow> line list option \<Rightarrow> store" where
  "VectorStore envs f = \<lparr>index = load envs f, disk = f\<rparr>"

text \<open>
  \<^verbatim>\<open>VectorStore._flush\<close>: rewrites the whole file, or raises and leaves it as it was.
\<close>

definition flush :: "environ \<Rightarrow> store \<Rightarrow> py_error + store" where
  "flush env s =
     (if disk_ok env
      then Inr (s\<lparr>disk := Some (map (\<lambda>doc. Object (to_dict doc)) (map snd (index s)))\<rparr>)
      else Inl OSError)"

text \<open>
  \<^verbatim>\<open>VectorStore.upsert\<close>. The result is the store after the call and what the call
  returned or raised: when the flush raises, the index has already been updated.
\<close>

definition upsert ::
  "platform \<Rightarrow> environ \<Rightarrow> store \<Rightarrow> string \<Rightarrow> string \<Rightarrow> metadata option \<Rightarrow> string option
     \<Rightarrow> string \<Rightarrow> bool \<Rightarrow> store \<times> (py_error + document)" where
  "upsert fp env s did c md cid rid skip_embed =
     (let emb = (if \<not> skip_embed then embed_text fp env c else empty_embedding);
          doc = Document env did c emb (Some (case md of None \<Rightarrow> [] | Some m \<Rightarrow> m)) None cid rid;
          s' = s\<lparr>index := dict_set did doc (index s)\<rparr>
      in case flush env s' of
           Inl err \<Rightarrow> (s', Inl err)
         | Inr s'' \<Rightarrow> (s'', Inr doc))"

definition get :: "store \<Rightarrow> string \<Rightarrow> document option" where
  "get s did = map_of (index s) did"

definition count :: "store \<Rightarrow> nat" where
  "count s = length (index s)"

text \<open>
  \<^verbatim>\<open>VectorStore.query\<close>. \<open>candidates\<close> and \<open>scored\<close> are the local variables of
  that name: the documents of the index in iteration order, restricted by a non-empty
  metadata filter, and their scores. \<^verbatim>\<open>q_embed["sparse"]\<close> raises
  \<^verbatim>\<open>KeyError\<close> on an embedding without the key;
  \<^verbatim>\<open>doc.embedding.get("sparse", {})\<close> does not.
\<close>

definition candidates :: "store \<Rightarrow> metadata option \<Rightarrow> document list" where
  "candidates s metadata_filter =
     (case metadata_filter of
        None \<Rightarrow> map snd (index s)
      | Some mf \<Rightarrow>
          if mf = [] then map snd (index s)
          else filter (\<lambda>d. list_all (\<lambda>(k, v). py_eq (dict_get (metadata d) k) v) mf)
                 (map snd (index s)))"

definition scored ::
  "platform \<Rightarrow> sparse_vec \<Rightarrow> document list \<Rightarrow> (real \<times> document) list" where
  "scored fp q_sparse docs =
     map (\<lambda>doc. (cosine_sparse fp q_sparse
                   (case sparse (embedding doc) of None \<Rightarrow> [] | Some d_sparse \<Rightarrow> d_sparse),
                 doc))
       docs"

definition query ::
  "platform \<Rightarrow> environ \<Rightarrow> store \<Rightarrow> string \<Rightarrow> int \<Rightarrow> metadata option
     \<Rightarrow> py_error + (real \<times> document) list" where
  "query fp env s query_text top_k metadata_filter =
     (if index s = [] then Inr []
      else
        (case sparse (embed_text fp env query_text) of
           None \<Rightarrow> Inl KeyError
         | Some q_sparse \<Rightarrow>
             Inr (py_slice (sort_reverse fst (scored fp q_sparse (candidates s metadata_filter)))
                    0 top_k)))"

text \<open>A document with the dense component of its embedding erased.\<close>

definition without_dense :: "document \<Rightarrow> document" where
  "without_dense d = d\<lparr>embedding := (embedding d)\<lparr>dense := None\<rparr>\<rparr>"

text \<open>
  The invariant of a store's index: it is a dictionary (no id twice) and it files
  every document under the document's own id.
\<close>

definition store_inv :: "store \<Rightarrow> bool" where
  "store_inv s \<longleftrightarrow>
     distinct (map fst (index s)) \<and> list_all (\<lambda>(k, d). doc_id d = k) (index s)"

text \<open>A sequence of \<^verbatim>\<open>upsert\<close> calls, each with its environment and arguments.\<close>

record upsert_call =
  c_env :: environ
  c_id :: string
  c_content :: string
  c_metadata :: "metadata option"
  c_correlation_id :: "string option"
  c_run_id :: string
  c_skip_embed :: bool

definition upsert_call :: "platform \<Rightarrow> store \<Rightarrow> upsert_call \<Rightarrow> store" where
  "upsert_call fp s c =
     fst (upsert fp (c_env c) s (c_id c) (c_content c) (c_metadata c) (c_correlation_id c)
            (c_run_id c) (c_skip_embed c))"

section \<open>Text chunking\<close>

text \<open>
  \<^verbatim>\<open>_HEADING_RE = re.compile(r"^#{1,6}\s", re.MULTILINE)\<close>. \<open>match_heading s\<close> is
  the length of the match of \<^verbatim>\<open>#{1,6}\s\<close> at the head of \<open>s\<close>: the run of
  \<^verbatim>\<open>#\<close> there must have 1 to 6 characters and be followed by a whitespace
  character (with a longer run, or another character after it, no shorter run matches
  either, since the character after a shorter run is \<^verbatim>\<open>#\<close>).
\<close>

definition match_heading :: "string \<Rightarrow> nat option" where
  "match_heading s =
     (let n = length (takeWhile (\<lambda>c. c = CHR ''#'') s)
      in if 1 \<le> n \<and> n \<le> 6
         then (case drop n s of
                 [] \<Rightarrow> None
               | c # cs \<Rightarrow> if is_space c then Some (Suc n) else None)
         else None)"

text \<open>
  \<^verbatim>\<open>_HEADING_RE.split(text)\<close>: the pieces of the text between the matches, found
  left to right. \<open>bol\<close> says that \<^verbatim>\<open>^\<close> matches at the current position (the start
  of the text, or just after a newline); \<open>cur\<close> is the piece being read. A match
  consumes the \<^verbatim>\<open>#\<close> characters and the one whitespace character after them,
  and nothing else of its line.
\<close>

function re_split :: "bool \<Rightarrow> string \<Rightarrow> string \<Rightarrow> string list" where
  "re_split bol cur [] = [cur]"
| "re_split bol cur (c # cs) =
     (case (if bol then match_heading (c # cs) else None) of
        Some m \<Rightarrow> cur # re_split (last (take m (c # cs)) = CHR 0x0A) [] (drop m (c # cs))
      | None \<Rightarrow> re_split (c = CHR 0x0A) (cur @ [c]) cs)"
  by pat_completeness auto
termination
  by (relation "measure (\<lambda>(bol, cur, s). length s)")
    (auto simp: match_heading_def Let_def split: if_splits list.splits)

definition heading_split :: "string \<Rightarrow> string list" where
  "heading_split text = re_split True [] text"

text \<open>
  The matches themselves (\<^verbatim>\<open>_HEADING_RE.findall(text)\<close>), by the same scan: the
  heading markers that \<^verbatim>\<open>split\<close> removes.
\<close>

function re_findall :: "bool \<Rightarrow> string \<Rightarrow> string list" where
  "re_findall bol [] = []"
| "re_findall bol (c # cs) =
     (case (if bol then match_heading (c # cs) else None) of
        Some m \<Rightarrow>
          take m (c # cs) # re_findall (last (take m (c # cs)) = CHR 0x0A) (drop m (c # cs))
      | None \<Rightarrow> re_findall (c = CHR 0x0A) cs)"
  by pat_completeness auto
termination
  by (relation "measure (\<lambda>(bol, s). length s)")
    (auto simp: match_heading_def Let_def split: if_splits list.splits)

definition heading_markers :: "string \<Rightarrow> string list" where
  "heading_markers text = re_findall True text"

text \<open>
  The \<^verbatim>\<open>while\<close> loop of \<^verbatim>\<open>_chunk_text\<close> over the words of one section, from
  window start \<open>start\<close>, with the chunks emitted so far. The loop need not terminate:
  \<open>None\<close> is the loop that runs forever.
\<close>

partial_function (option) chunk_loop ::
  "string list \<Rightarrow> int \<Rightarrow> int \<Rightarrow> int \<Rightarrow> string list \<Rightarrow> string list option" where
  "chunk_loop words chunk_size overlap start chunks =
     (if start < int (length words)
      then
        (let end' = min (start + chunk_size) (int (length words));
             chunk = join_sp (py_slice words start end');
             chunks' = (if strip chunk \<noteq> [] then chunks @ [chunk] else chunks)
         in if end' \<ge> int (length words) then Some chunks'
            else chunk_loop words chunk_size overlap (end' - overlap) chunks')
      else Some chunks)"

text \<open>The \<^verbatim>\<open>for\<close> loop of \<^verbatim>\<open>_chunk_text\<close> over the sections.\<close>

fun chunk_sections ::
  "string list \<Rightarrow> int \<Rightarrow> int \<Rightarrow> string list \<Rightarrow> string list option" where
  "chunk_sections [] chunk_size overlap chunks = Some chunks"
| "chunk_sections (section # sections) chunk_size overlap chunks =
     (let words = split_ws section
      in if words = [] then chunk_sections sections chunk_size overlap chunks
         else (case chunk_loop words chunk_size overlap 0 chunks of
                 None \<Rightarrow> None
               | Some chunks' \<Rightarrow> chunk_sections sections chunk_size overlap chunks'))"

definition CHUNK_FALLBACK_MULTIPLIER :: int where
  "CHUNK_FALLBACK_MULTIPLIER = 6"

definition chunk_text :: "string \<Rightarrow> int \<Rightarrow> int \<Rightarrow> string list option" where
  "chunk_text text chunk_size overlap =
     (case chunk_sections (heading_split text) chunk_size overlap [] of
        None \<Rightarrow> None
      | Some chunks \<Rightarrow>
          Some (if chunks \<noteq> [] then chunks
                else [py_slice text 0 (chunk_size * CHUNK_FALLBACK_MULTIPLIER)]))"

text \<open>
  The windows of a section as the specification words them: windows of \<open>sz\<close> words
  whose starts advance by \<open>step\<close>, until the window would start at or past the end of
  the section.
\<close>

function spec_windows :: "string list \<Rightarrow> nat \<Rightarrow> nat \<Rightarrow> nat \<Rightarrow> string list" where
  "spec_windows words sz step start =
     (if start < length words \<and> 0 < step
      then join_sp (take sz (drop start words)) # spec_windows words sz step (start + step)
      else [])"
  by pat_completeness auto
termination
  by (relation "measure (\<lambda>(words, sz, step, start). length words - start)") auto

text \<open>
  The number of windows the loop emits for a section of \<open>n\<close> words: one when the
  first window reaches the end of the section, and otherwise one more than the number
  of steps after which a window does.
\<close>

definition n_windows :: "int \<Rightarrow> int \<Rightarrow> int \<Rightarrow> nat" where
  "n_windows n chunk_size step =
     (if n \<le> chunk_size then 1 else Suc (nat ((n - chunk_size + step - 1) div step)))"

text \<open>
  The lines of a text, and the words of its heading lines (the lines that begin with 1
  to 6 \<^verbatim>\<open>#\<close> characters followed by whitespace), as the specification words them.
\<close>

fun lines_of :: "string \<Rightarrow> string list" where
  "lines_of [] = [[]]"
| "lines_of (c # cs) =
     (if c = CHR 0x0A then [] # lines_of cs
      else (case lines_of cs of [] \<Rightarrow> [[c]] | l # ls \<Rightarrow> (c # l) # ls))"

definition heading_line_words :: "string \<Rightarrow> string list" where
  "heading_line_words text =
     concat (map split_ws
       (filter (\<lambda>l. match_heading (l @ [CHR 0x0A]) \<noteq> None) (lines_of text)))"

text \<open>
  The sections and the markers of a text put back together: a section, then the marker
  that ended it, then the next section, and so on.
\<close>

fun weave :: "string list \<Rightarrow> string list \<Rightarrow> string" where
  "weave [] ms = []"
| "weave (s # ss) [] = s"
| "weave (s # ss) (m # ms) = s @ m @ weave ss ms"

text \<open>
  The offset in the woven text at which each marker starts, the first section starting
  at offset \<open>n\<close>.
\<close>

fun marker_offsets :: "nat \<Rightarrow> string list \<Rightarrow> string list \<Rightarrow> nat list" where
  "marker_offsets n (s # ss) (m # ms) =
     (n + length s) # marker_offsets (n + length s + length m) ss ms"
| "marker_offsets n ss ms = []"

text \<open>
  The heading-marker boundaries as the specification words them: the offsets of the
  text at which a line begins (the start of the text, or just after a newline) and
  1 to 6 \<^verbatim>\<open>#\<close> characters followed by a whitespace character stand. \<open>bol\<close> says
  whether offset \<open>0\<close> begins a line.
\<close>

definition line_heading_positions :: "bool \<Rightarrow> string \<Rightarrow> nat list" where
  "line_heading_positions bol s =
     filter (\<lambda>i. (if i = 0 then bol else s ! (i - 1) = CHR 0x0A)
                 \<and> match_heading (drop i s) \<noteq> None)
       [0..<length s]"

definition heading_positions :: "string \<Rightarrow> nat list" where
  "heading_positions text = line_heading_positions True text"

text \<open>A heading marker: 1 to 6 \<^verbatim>\<open>#\<close> characters and one whitespace character.\<close>

definition is_heading_marker :: "string \<Rightarrow> bool" where
  "is_heading_marker m \<longleftrightarrow>
     m \<noteq> [] \<and> 1 \<le> length (butlast m) \<and> length (butlast m) \<le> 6
     \<and> list_all (\<lambda>c. c = CHR ''#'') (butlast m) \<and> is_space (last m)"

text \<open>
  The chunks of one section chunked on its own, from an empty list of chunks
  (\<open>None\<close> when its loop runs forever).
\<close>

definition section_chunks :: "string \<Rightarrow> int \<Rightarrow> int \<Rightarrow> string list option" where
  "section_chunks sec chunk_size overlap =
     (let words = split_ws sec
      in if words = [] then Some [] else chunk_loop words chunk_size overlap 0 [])"

section \<open>Rehydration\<close>

datatype json =
  JNull | JBool bool | JNum real | JStr string | JList "json list" | JDict "(string \<times> json) list"

text \<open>
  A file as the rehydration engine reads it: what \<^verbatim>\<open>stat().st_mtime\<close> gives
  (seconds; \<open>None\<close> when \<^verbatim>\<open>stat\<close> raises \<^verbatim>\<open>OSError\<close>, as on a dangling
  symbolic link), what \<^verbatim>\<open>read_text\<close> gives (\<open>None\<close> when it raises
  \<^verbatim>\<open>OSError\<close>), and what \<^verbatim>\<open>json.loads(read_text())\<close> gives (\<open>None\<close> when
  either raises).
\<close>

record file_node =
  st_mtime :: "real option"
  read_text :: "string option"
  json_loads :: "json option"

text \<open>
  The files the engine reads (\<open>None\<close> when the path does not exist; the telemetry
  directory as its entries, in the order the directory lists them), the clock in
  seconds, the freshness threshold in hours, and what constructing the default store
  gives.
\<close>

record sources =
  ACTIVE_MEMORY_PATH :: "file_node option"
  TELEMETRY_DIR :: "(string \<times> file_node) list option"
  ORG_REPO_INDEX :: "file_node option"
  now :: real
  MEMORY_FRESHNESS_HOURS :: real
  default_store :: "py_error + store"

datatype warning =
  VectorStoreUnavailable py_error
| ActiveMemoryAbsent
| ActiveMemoryStale real real
| ActiveMemoryUnreadable

record active_memory =
  available :: bool
  am_content :: string
  age_hours :: "real option"
  am_warning :: "warning option"

text \<open>\<^verbatim>\<open>_load_active_memory\<close>; the \<^verbatim>\<open>try\<close> block catches \<^verbatim>\<open>OSError\<close>.\<close>

definition load_active_memory :: "sources \<Rightarrow> active_memory" where
  "load_active_memory src =
     (let result = \<lparr>available = False, am_content = [], age_hours = None, am_warning = None\<rparr>
      in case ACTIVE_MEMORY_PATH src of
           None \<Rightarrow> result\<lparr>am_warning := Some ActiveMemoryAbsent\<rparr>
         | Some f \<Rightarrow>
             (case st_mtime f of
                None \<Rightarrow> result\<lparr>am_warning := Some ActiveMemoryUnreadable\<rparr>
              | Some mod_time \<Rightarrow>
                  (let age = (now src - mod_time) / 3600;
                       result = result\<lparr>age_hours := Some (py_round age 2)\<rparr>;
                       result =
                         (if age > MEMORY_FRESHNESS_HOURS src
                          then result\<lparr>am_warning :=
                                 Some (ActiveMemoryStale age (MEMORY_FRESHNESS_HOURS src))\<rparr>
                          else result)
                   in case read_text f of
                        None \<Rightarrow> result\<lparr>am_warning := Some ActiveMemoryUnreadable\<rparr>
                      | Some c \<Rightarrow> result\<lparr>available := True, am_content := c\<rparr>)))"

text \<open>\<^verbatim>\<open>fnmatch\<close> of a file name against \<^verbatim>\<open>run-*.json\<close>.\<close>

definition glob_match :: "string \<Rightarrow> bool" where
  "glob_match name \<longleftrightarrow>
     9 \<le> length name \<and> take 4 name = ''run-'' \<and> drop (length name - 5) name = ''.json''"

text \<open>
  The sort key \<^verbatim>\<open>p.stat().st_mtime\<close> of every globbed path, computed before the
  sort; it is not inside any \<^verbatim>\<open>try\<close>, so the first \<^verbatim>\<open>stat\<close> that raises ends
  the call.
\<close>

fun stat_keys ::
  "(string \<times> file_node) list \<Rightarrow> py_error + (real \<times> string \<times> file_node) list" where
  "stat_keys [] = Inr []"
| "stat_keys (p # ps) =
     (case st_mtime (snd p) of
        None \<Rightarrow> Inl OSError
      | Some t \<Rightarrow> (case stat_keys ps of Inl e \<Rightarrow> Inl e | Inr keyed \<Rightarrow> Inr ((t, p) # keyed)))"

text \<open>\<^verbatim>\<open>_load_recent_telemetry\<close>.\<close>

definition load_recent_telemetry :: "sources \<Rightarrow> int \<Rightarrow> py_error + json list" where
  "load_recent_telemetry src max_entries =
     (case TELEMETRY_DIR src of
        None \<Rightarrow> Inr []
      | Some entries \<Rightarrow>
          (case stat_keys (filter (\<lambda>p. glob_match (fst p)) entries) of
             Inl e \<Rightarrow> Inl e
           | Inr keyed \<Rightarrow>
               (let log_files = map snd (sort_reverse fst keyed)
                in Inr (concat (map (\<lambda>log_file. case json_loads (snd log_file) of
                                                  None \<Rightarrow> []
                                                | Some data \<Rightarrow> [data])
                                  (py_slice log_files 0 max_entries))))))"

text \<open>\<^verbatim>\<open>_load_org_index\<close>.\<close>

definition load_org_index :: "sources \<Rightarrow> json" where
  "load_org_index src =
     (case ORG_REPO_INDEX src of
        None \<Rightarrow> JDict []
      | Some f \<Rightarrow> (case json_loads f of None \<Rightarrow> JDict [] | Some j \<Rightarrow> j))"

record vector_hit =
  score :: real
  hit_id :: string
  hit_content :: string
  hit_metadata :: metadata

record context_bundle =
  vector_hits :: "vector_hit list"
  b_active_memory :: "active_memory option"
  recent_runs :: "json list"
  org_repos :: json
  warnings :: "warning list"
  rehydrated_at :: real
  b_query :: string

text \<open>
  \<^verbatim>\<open>rehydrate\<close>. \<open>b_active_memory\<close> is \<open>None\<close> for the empty dictionary the call
  keeps when \<^verbatim>\<open>include_active_memory\<close> is false. \<open>Inl\<close> is an exception that leaves
  the call.
\<close>

definition rehydrate ::
  "platform \<Rightarrow> environ \<Rightarrow> sources \<Rightarrow> string \<Rightarrow> int \<Rightarrow> bool \<Rightarrow> bool \<Rightarrow> bool
     \<Rightarrow> store option \<Rightarrow> py_error + context_bundle" where
  "rehydrate fp env src query_text top_k include_active_memory include_telemetry
       include_org_index st =
     (let (hits, warns) =
            (case (case st of Some vs \<Rightarrow> Inr vs | None \<Rightarrow> default_store src) of
               Inl exc \<Rightarrow> ([], [VectorStoreUnavailable exc])
             | Inr vs \<Rightarrow>
                 (case query fp env vs query_text top_k None of
                    Inl exc \<Rightarrow> ([], [VectorStoreUnavailable exc])
                  | Inr results \<Rightarrow>
                      (map (\<lambda>(sc, doc). \<lparr>score = py_round sc 4, hit_id = doc_id doc,
                                          hit_content = py_slice (content doc) 0 400,
                                          hit_metadata = metadata doc\<rparr>) results,
                       [])));
          memory =
            (if include_active_memory then Some (load_active_memory src) else None);
          warns =
            (case memory of
               None \<Rightarrow> warns
             | Some am \<Rightarrow> (case am_warning am of None \<Rightarrow> warns | Some w \<Rightarrow> warns @ [w]))
      in case (if include_telemetry then load_recent_telemetry src 5 else Inr []) of
           Inl exc \<Rightarrow> Inl exc
         | Inr recent \<Rightarrow>
             (let repos =
                    (if include_org_index
                     then (case load_org_index src of
                             JDict kvs \<Rightarrow>
                               (case map_of kvs ''repositories'' of
                                  None \<Rightarrow> JList []
                                | Some v \<Rightarrow> v)
                           | JList xs \<Rightarrow> JList xs
                           | _ \<Rightarrow> JList [])
                     else JList [])
              in Inr \<lparr>vector_hits = hits, b_active_memory = memory,
                      recent_runs = recent, org_repos = repos,
                      warnings = warns, rehydrated_at = now src,
                      b_query = query_text\<rparr>))"

text \<open>
  What a line of the store file contributes to the ids and contents of the loaded
  index.
\<close>

fun line_entry :: "line \<Rightarrow> (string \<times> string) option" where
  "line_entry (Object d) =
     (case s_id d of None \<Rightarrow> None
      | Some i \<Rightarrow> (case s_content d of None \<Rightarrow> None | Some c \<Rightarrow> Some (i, c)))"
| "line_entry _ = None"

section \<open>Example values\<close>

text \<open>
  An environment, and the store that two \<^verbatim>\<open>upsert\<close> calls with
  \<^verbatim>\<open>skip_embed=True\<close> leave behind, starting from a path with no file.
\<close>

definition env0 :: environ where
  "env0 = \<lparr>EMBED_BACKEND = ''tfidf'', embed_openai = (\<lambda>t. None), embed_ollama = (\<lambda>t. None),
            GITHUB_RUN_ID = [], utcnow = ''2024-01-01T00:00:00+00:00'', uuid4 = ''uuid-1'',
            disk_ok = True\<rparr>"

definition doc_a :: document where
  "doc_a = Document env0 ''doc-a'' ''alpha beta'' empty_embedding (Some []) None None []"

definition doc_b :: document where
  "doc_b = Document env0 ''doc-b'' ''gamma'' empty_embedding (Some []) None None []"

definition store0 :: store where
  "store0 = VectorStore (\<lambda>n. env0) None"

definition store2 :: store where
  "store2 = fst (upsert binary64 env0 (fst (upsert binary64 env0 store0 ''doc-a'' ''alpha beta'' None None [] True))
                  ''doc-b'' ''gamma'' None None [] True)"

definition doc_a_dense :: document where
  "doc_a_dense = doc_a\<lparr>embedding := (embedding doc_a)\<lparr>dense := Some [1, 2]\<rparr>\<rparr>"

text \<open>
  The sources of a repository whose telemetry directory holds one entry,
  \<^verbatim>\<open>run-1.json\<close>, that cannot be \<^verbatim>\<open>stat\<close>-ed (a dangling symbolic link), and
  nothing else.
\<close>

definition sources_dangling :: sources where
  "sources_dangling =
     \<lparr>ACTIVE_MEMORY_PATH = None,
      TELEMETRY_DIR = Some [(''run-1.json'', \<lparr>st_mtime = None, read_text = None, json_loads = None\<rparr>)],
      ORG_REPO_INDEX = None, now = 0, MEMORY_FRESHNESS_HOURS = 2,
      default_store = Inr store0\<rparr>"

section \<open>Rounding to the nearest double\<close>

text \<open>
  How \<open>rd\<close> is evaluated: a positive \<open>x\<close> with \<open>2^52 \<le> x * 2^k < 2^53\<close> is
  rounded to the multiple of \<open>2^-k\<close> nearest to it, and a square root is rounded
  by comparing squares.
\<close>

lemma log2_ge: "0 < y \<Longrightarrow> 2 ^ n \<le> y \<Longrightarrow> real n \<le> log 2 y"
  by (simp add: le_log_iff powr_realpow)

lemma log2_less: "0 < y \<Longrightarrow> y < 2 ^ n \<Longrightarrow> log 2 y < real n"
  by (simp add: log_less_iff powr_realpow)

lemma log2_shift: "0 < y \<Longrightarrow> log 2 (y / 2 ^ k) = log 2 y - real k"
  by (simp add: log_divide log_nat_power)

lemma powr_shift: "2 powr (of_int (52 - int k) - 52) = 1 / (2 :: real) ^ k"
  by (simp add: powr_minus powr_realpow field_simps)

lemma rd_eqI:
  fixes k :: nat
  assumes y: "x * 2 ^ k = y" and lo: "2 ^ 52 \<le> y" and hi: "y < 2 ^ 53"
    and m: "round_half_even y = m"
  shows "rd x = of_int m / 2 ^ k"
proof -
  have "(0::real) < 2 ^ 52" by (rule zero_less_power) simp
  then have ypos: "0 < y" using lo by (rule less_le_trans)
  have x: "x = y / 2 ^ k" using y by (simp add: field_simps)
  have xpos: "0 < x" unfolding x using ypos by simp
  have 1: "log 2 x = log 2 y - real k"
    unfolding x using ypos by (rule log2_shift)
  have 2: "real 52 \<le> log 2 y"
    using ypos lo by (rule log2_ge)
  have 3: "log 2 y < real 53"
    using ypos hi by (rule log2_less)
  have fl: "\<lfloor>log 2 x\<rfloor> = 52 - int k"
    unfolding 1 floor_eq_iff using 2 3 by simp
  have 4: "x / (1 / 2 ^ k) = y" using y by simp
  have 5: "\<bar>x\<bar> = x" "sgn x = 1" "x \<noteq> 0" using xpos by simp_all
  show ?thesis
    unfolding rd_def Let_def 5 fl powr_shift 4 m  by (simp add: 5)
qed


lemma round_half_even_eqI:
  assumes "of_int m - 1 / 2 < y" "y < of_int m + 1 / 2"
  shows "round_half_even y = m"
proof -
  have "\<lfloor>y\<rfloor> = m \<or> \<lfloor>y\<rfloor> = m - 1" using assms by linarith
  then show ?thesis
  proof
    assume f: "\<lfloor>y\<rfloor> = m"
    then show ?thesis using assms by (simp add: round_half_even_def Let_def)
  next
    assume f: "\<lfloor>y\<rfloor> = m - 1"
    then show ?thesis using assms by (simp add: round_half_even_def Let_def)
  qed
qed

lemma rd_sqrt_eqI:
  fixes k :: nat and m :: int
  assumes m: "2 ^ 52 < m" "m < 2 ^ 53"
    and lo: "(2 * of_int m - 1)\<^sup>2 < x * 4 * 4 ^ k"
    and hi: "x * 4 * 4 ^ k < (2 * of_int m + 1)\<^sup>2"
  shows "rd (sqrt x) = of_int m / 2 ^ k"
proof -
  let ?y = "sqrt x * 2 ^ k"
  have "0 \<le> (2 * real_of_int m - 1)\<^sup>2" by simp
  then have "0 < x * 4 * 4 ^ k" using lo by (rule le_less_trans)
  then have xpos: "0 < x" by (simp add: zero_less_mult_iff)
  have "(2::real) ^ k * 2 ^ k = (2 * 2) ^ k" by (simp only: power_mult_distrib)
  then have p: "((2::real) ^ k)\<^sup>2 = 4 ^ k" by (simp add: power2_eq_square)
  have sq: "(2 * ?y)\<^sup>2 = x * 4 * 4 ^ k"
    using xpos by (simp add: power_mult_distrib p)
  have ypos: "0 \<le> 2 * ?y" using xpos by simp
  have mr: "(2::real) ^ 52 + 1 \<le> of_int m" "real_of_int m \<le> 2 ^ 53 - 1"
  proof -
    have "2 ^ 52 + 1 \<le> m" using m(1) by simp
    then have "real_of_int (2 ^ 52 + 1) \<le> of_int m" by (simp only: of_int_le_iff)
    then show "(2::real) ^ 52 + 1 \<le> of_int m" by simp
    have "m \<le> 2 ^ 53 - 1" using m(2) by simp
    then have "real_of_int m \<le> of_int (2 ^ 53 - 1)" by (simp only: of_int_le_iff)
    then show "real_of_int m \<le> 2 ^ 53 - 1" by simp
  qed
  have "(2 * of_int m - 1)\<^sup>2 < (2 * ?y)\<^sup>2" using lo by (simp only: sq)
  then have l: "2 * of_int m - 1 < 2 * ?y" using ypos by (rule power2_less_imp_less)
  have "(2 * ?y)\<^sup>2 < (2 * of_int m + 1)\<^sup>2" using hi by (simp only: sq)
  moreover have "0 \<le> 2 * real_of_int m + 1" using mr(1) by simp
  ultimately have h: "2 * ?y < 2 * of_int m + 1" by (rule power2_less_imp_less)
  have r: "round_half_even ?y = m"
    by (rule round_half_even_eqI) (use l h in simp_all)
  have "2 ^ 52 \<le> ?y" using l mr(1) by linarith
  moreover have "?y < 2 ^ 53" using h mr(2) by linarith
  ultimately show ?thesis using r by (rule rd_eqI [OF refl])
qed


lemma rd_nearI:
  fixes k :: nat and m :: int
  assumes m: "2 ^ 52 < m" "m < 2 ^ 53"
    and lo: "(2 * of_int m - 1) / 2 ^ Suc k < x"
    and hi: "x < (2 * of_int m + 1) / 2 ^ Suc k"
  shows "rd x = of_int m / 2 ^ k"
proof -
  let ?y = "x * 2 ^ k"
  have mr: "(2::real) ^ 52 + 1 \<le> of_int m" "real_of_int m \<le> 2 ^ 53 - 1"
  proof -
    have "2 ^ 52 + 1 \<le> m" using m(1) by simp
    then have "real_of_int (2 ^ 52 + 1) \<le> of_int m" by (simp only: of_int_le_iff)
    then show "(2::real) ^ 52 + 1 \<le> of_int m" by simp
    have "m \<le> 2 ^ 53 - 1" using m(2) by simp
    then have "real_of_int m \<le> of_int (2 ^ 53 - 1)" by (simp only: of_int_le_iff)
    then show "real_of_int m \<le> 2 ^ 53 - 1" by simp
  qed
  have l: "of_int m - 1 / 2 < ?y" using lo by (simp add: field_simps)
  have h: "?y < of_int m + 1 / 2" using hi by (simp add: field_simps)
  have r: "round_half_even ?y = m" using l h by (rule round_half_even_eqI)
  have "2 ^ 52 \<le> ?y" using l mr(1) by linarith
  moreover have "?y < 2 ^ 53" using h mr(2) by linarith
  ultimately show ?thesis using r by (rule rd_eqI [OF refl])
qed

lemma less_ln_if:
  fixes y :: real
  assumes "0 < y" "exp a < y"
  shows "a < ln y"
  using assms exp_less_cancel_iff [of a "ln y"] by simp

lemma ln_less_if:
  fixes y :: real
  assumes "0 < y" "y < exp b"
  shows "ln y < b"
  using assms exp_less_cancel_iff [of "ln y" b] by simp

text \<open>
  Bounds of the exponential function by its Taylor polynomial, and the step from
  \<open>exp a\<close> to \<open>exp (2 * a)\<close>; a logarithm is rounded by enclosing it between
  two rationals whose exponentials are bounded in this way.
\<close>

lemma sum_upto_12:
  fixes f :: "nat \<Rightarrow> real"
  shows "(\<Sum>m<12. f m) = (f 0 + f 1 + f 2 + f 3 + f 4 + f 5 + f 6 + f 7 + f 8 + f 9 + f 10 + f 11)"
  by (simp add: eval_nat_numeral)

lemma exp_taylor_upper:
  fixes r :: real
  assumes "0 \<le> r" "r \<le> 1 / 2" "(\<Sum>m<n. r ^ m / fact m) + 2 * r ^ n / fact n \<le> u"
  shows "exp r \<le> u"
proof -
  from Maclaurin_exp_le [of r n] obtain t
    where t: "\<bar>t\<bar> \<le> \<bar>r\<bar>" and e: "exp r = (\<Sum>m<n. r ^ m / fact m) + (exp t / fact n) * r ^ n"
    by blast
  have "t \<le> 1 / 2" using t assms(1,2) by linarith
  then have "exp t \<le> exp (1 / 2 :: real)" by simp
  also have "\<dots> \<le> 1 + 1 / 2 + (1 / 2)\<^sup>2" by (rule exp_bound) simp_all
  also have "\<dots> \<le> 2" by (simp add: power2_eq_square)
  finally have "exp t \<le> 2" .
  then have "exp t * (r ^ n / fact n) \<le> 2 * (r ^ n / fact n)"
    by (rule mult_right_mono) (use assms(1) in simp)
  then have "exp r \<le> (\<Sum>m<n. r ^ m / fact m) + 2 * r ^ n / fact n"
    unfolding e by simp
  then show ?thesis using assms(3) by (rule order_trans)
qed

lemma exp_taylor_lower:
  fixes r :: real
  assumes "0 \<le> r" "v \<le> (\<Sum>m<n. r ^ m / fact m)"
  shows "v \<le> exp r"
proof -
  from Maclaurin_exp_le [of r n] obtain t
    where e: "exp r = (\<Sum>m<n. r ^ m / fact m) + (exp t / fact n) * r ^ n"
    by blast
  have "0 \<le> (exp t / fact n) * r ^ n" using assms(1) by simp
  then show ?thesis using assms(2) unfolding e by linarith
qed

lemma exp_double_upper:
  fixes a :: real
  assumes "exp a \<le> u" "u * u \<le> u'"
  shows "exp (2 * a) \<le> u'"
proof -
  have "exp (2 * a) = exp a * exp a" by (simp add: exp_add [symmetric])
  also have "\<dots> \<le> u * u"
  proof (rule mult_mono)
    have "0 \<le> exp a" by simp
    then show "0 \<le> u" using assms(1) by (rule order_trans)
  qed (use assms(1) in simp_all)
  finally show ?thesis using assms(2) by (rule order_trans)
qed

lemma exp_double_lower:
  fixes a :: real
  assumes "v \<le> exp a" "0 \<le> v" "v' \<le> v * v"
  shows "v' \<le> exp (2 * a)"
proof -
  have "v * v \<le> exp a * exp a" by (rule mult_mono) (use assms(1,2) in simp_all)
  also have "\<dots> = exp (2 * a)" by (simp add: exp_add [symmetric])
  finally show ?thesis using assms(3) by (rule order_trans [rotated])
qed

lemma round_half_even_nonneg: "0 \<le> y \<Longrightarrow> 0 \<le> round_half_even y"
  by (simp add: round_half_even_def Let_def)

lemma rd_nonneg: "0 \<le> x \<Longrightarrow> 0 \<le> rd x"
  by (simp add: rd_def Let_def round_half_even_nonneg sgn_if)

lemma foldl_rd_nonneg:
  "0 \<le> acc \<Longrightarrow> list_all (\<lambda>x. 0 \<le> x) xs \<Longrightarrow> 0 \<le> foldl (\<lambda>acc x. rd (acc + x)) acc xs"
  by (induction xs arbitrary: acc) (simp_all add: rd_nonneg)

lemma platform_ok_binary64: "platform_ok binary64"
  by (auto simp: platform_ok_def binary64_def rd_nonneg foldl_rd_nonneg)

lemma platform_ok_exact: "platform_ok exact"
  by (auto simp: platform_ok_def exact_def list_all_iff intro: sum_list_nonneg)

section \<open>The weights of the sparse embedder\<close>

lemma counter_add_keys:
  "map fst (counter_add t kvs) =
     (if t \<in> set (map fst kvs) then map fst kvs else map fst kvs @ [t])"
  by (induction kvs) force+

lemma counter_add_distinct:
  "distinct (map fst kvs) \<Longrightarrow> distinct (map fst (counter_add t kvs))"
  by (simp add: counter_add_keys)

lemma counter_add_lookup:
  "map_of (counter_add t kvs) k =
     (if k = t then Some (case map_of kvs t of None \<Rightarrow> 1 | Some n \<Rightarrow> Suc n)
      else map_of kvs k)"
  by (induction kvs) auto

lemma foldl_counter_distinct:
  "distinct (map fst acc) \<Longrightarrow>
   distinct (map fst (foldl (\<lambda>acc t. counter_add t acc) acc ts))"
  by (induction ts arbitrary: acc) (auto simp: counter_add_distinct)

lemma foldl_counter_lookup:
  "map_of (foldl (\<lambda>acc t. counter_add t acc) acc ts) k =
     (case map_of acc k of
        None \<Rightarrow> if k \<in> set ts then Some (count_list ts k) else None
      | Some n \<Rightarrow> Some (n + count_list ts k))"
proof (induction ts arbitrary: acc)
  case Nil
  then show ?case by (simp split: option.splits)
next
  case (Cons t ts)
  show ?case
    by (simp add: Cons.IH counter_add_lookup count_list_0_iff split: option.splits)
qed

lemma Counter_lookup:
  "map_of (Counter ts) k = (if k \<in> set ts then Some (count_list ts k) else None)"
  by (simp add: Counter_def foldl_counter_lookup)

lemma Counter_distinct: "distinct (map fst (Counter ts))"
  by (simp add: Counter_def foldl_counter_distinct)

lemma Counter_empty_iff: "(Counter ts = []) = (ts = [])"
proof
  assume "Counter ts = []"
  then have "k \<notin> set ts" for k
    using Counter_lookup [of ts k] by (auto split: if_splits)
  then show "ts = []" by (cases ts) auto
qed (simp add: Counter_def)

lemma map_of_map_snd:
  "map_of (map (\<lambda>(k, v). (k, f v)) kvs) k = map_option f (map_of kvs k)"
  by (induction kvs) auto

lemma map_fst_map_snd: "map fst (map (\<lambda>(k, v). (k, f v)) kvs) = map fst kvs"
  by (induction kvs) auto

lemma tfidf_embed_nonempty:
  "tokenize text \<noteq> [] \<Longrightarrow>
   tfidf_embed fp text =
     map (\<lambda>(term, count). (term,
            let tf_val = fdiv fp (real count) (real (length (tokenize text)))
            in fmul fp tf_val (log1p fp (fdiv fp 1 tf_val))))
       (Counter (tokenize text))"
  by (simp add: tfidf_embed_def Let_def case_prod_unfold comp_def)

lemma tokenize_9_2:
  "tokenize ''aa aa aa aa aa aa aa aa aa bb bb''
     = [''aa'', ''aa'', ''aa'', ''aa'', ''aa'', ''aa'', ''aa'', ''aa'', ''aa'', ''bb'', ''bb'']"
  by (simp add: tokenize_def is_token_char_def)

text \<open>
  The roundings behind the weight of a token with nine occurrences among eleven tokens:
  \<open>9 / 11\<close> rounds to \<open>0.8181818181818182\<close>, the reciprocal of that double to
  \<open>1.222222222222222\<close> and \<open>11 / 9\<close> to \<open>1.2222222222222223\<close>; then the products
  of \<open>0.8181818181818182\<close> with the logarithms \<open>0.7985076962177715\<close> and
  \<open>0.7985076962177716\<close>. Each double is written as a fraction with a power of two
  as denominator.
\<close>

lemma rd_9_11: "rd (9 / 11) = 7369526662969903 / 9007199254740992"
  using rd_eqI [of "9 / 11" 53 "81064793292668928 / 11" 7369526662969903]
  by (simp add: round_half_even_def)

lemma rd_inv_9_11: "rd (9007199254740992 / 7369526662969903) = 5504399544563939 / 4503599627370496"
  using rd_eqI [of "9007199254740992 / 7369526662969903" 52 "40564819207303340847894502572032 / 7369526662969903" 5504399544563939]
  by (simp add: round_half_even_def)

lemma rd_weight_9_11: "rd (26501989363129800889784037663587 / 40564819207303340847894502572032) = 5884623757863539 / 9007199254740992"
  using rd_eqI [of "26501989363129800889784037663587 / 40564819207303340847894502572032" 53 "26501989363129800889784037663587 / 4503599627370496" 5884623757863539]
  by (simp add: round_half_even_def)

lemma rd_11_9: "rd (11 / 9) = 1376099886140985 / 1125899906842624"
  using rd_eqI [of "11 / 9" 52 "49539595901075456 / 9" 5504399544563940]
  by (simp add: round_half_even_def)

lemma rd_spec_weight_9_11: "rd (53003978726259609149094738297077 / 81129638414606681695789005144064) = 1471155939465885 / 2251799813685248"
  using rd_eqI [of "53003978726259609149094738297077 / 81129638414606681695789005144064" 53 "53003978726259609149094738297077 / 9007199254740992" 5884623757863540]
  by (simp add: round_half_even_def)
text \<open>
  The logarithms of \<open>1 + 1.222222222222222\<close> and of \<open>1 + 1.2222222222222223\<close>,
  each enclosed within half a unit in the last place of the double it rounds to.
\<close>

lemma ln_inv_9_11_lower: "14384635852555315 / 18014398509481984 < ln (10007999171934435 / 4503599627370496 :: real)"
proof -
  have "exp (14384635852555315 / 576460752303423488 :: real) \<le> 1239472118941363680290567 / 1208925819614629174706176"
    by (rule exp_taylor_upper [of _ 12]) (simp_all add: sum_upto_12 fact_numeral power_divide)
  then have "exp (14384635852555315 / 288230376151711744 :: real) \<le> 1270790240978325269008953 / 1208925819614629174706176"
    using exp_double_upper [of "14384635852555315 / 576460752303423488" "1239472118941363680290567 / 1208925819614629174706176" "1270790240978325269008953 / 1208925819614629174706176"] by simp
  then have "exp (14384635852555315 / 144115188075855872 :: real) \<le> 1335820453467141795646343 / 1208925819614629174706176"
    using exp_double_upper [of "14384635852555315 / 288230376151711744" "1270790240978325269008953 / 1208925819614629174706176" "1335820453467141795646343 / 1208925819614629174706176"] by simp
  then have "exp (14384635852555315 / 72057594037927936 :: real) \<le> 1476034554766959145518151 / 1208925819614629174706176"
    using exp_double_upper [of "14384635852555315 / 144115188075855872" "1335820453467141795646343 / 1208925819614629174706176" "1476034554766959145518151 / 1208925819614629174706176"] by simp
  then have "exp (14384635852555315 / 36028797018963968 :: real) \<le> 225270026034413269867251 / 151115727451828646838272"
    using exp_double_upper [of "14384635852555315 / 72057594037927936" "1476034554766959145518151 / 1208925819614629174706176" "225270026034413269867251 / 151115727451828646838272"] by simp
  then have "exp (14384635852555315 / 18014398509481984 :: real) \<le> 335812727670730274567189 / 151115727451828646838272"
    using exp_double_upper [of "14384635852555315 / 36028797018963968" "225270026034413269867251 / 151115727451828646838272" "335812727670730274567189 / 151115727451828646838272"] by simp
  then have "exp (14384635852555315 / 18014398509481984 :: real) < 10007999171934435 / 4503599627370496" by simp
  then show ?thesis by (rule less_ln_if [rotated]) simp
qed

lemma ln_inv_9_11_upper: "ln (10007999171934435 / 4503599627370496 :: real) < 14384635852555317 / 18014398509481984"
proof -
  have "1239472118941363684590849 / 1208925819614629174706176 \<le> exp (14384635852555317 / 576460752303423488 :: real)"
    by (rule exp_taylor_lower [of _ _ 12]) (simp_all add: sum_upto_12 fact_numeral power_divide)
  then have "1270790240978325277826829 / 1208925819614629174706176 \<le> exp (14384635852555317 / 288230376151711744 :: real)"
    using exp_double_lower [of "1239472118941363684590849 / 1208925819614629174706176" "14384635852555317 / 576460752303423488" "1270790240978325277826829 / 1208925819614629174706176"] by simp
  then have "1335820453467141814184569 / 1208925819614629174706176 \<le> exp (14384635852555317 / 144115188075855872 :: real)"
    using exp_double_lower [of "1270790240978325277826829 / 1208925819614629174706176" "14384635852555317 / 288230376151711744" "1335820453467141814184569 / 1208925819614629174706176"] by simp
  then have "369008638691739796621581 / 302231454903657293676544 \<le> exp (14384635852555317 / 72057594037927936 :: real)"
    using exp_double_lower [of "1335820453467141814184569 / 1208925819614629174706176" "14384635852555317 / 144115188075855872" "369008638691739796621581 / 302231454903657293676544"] by simp
  then have "1802160208275306258977957 / 1208925819614629174706176 \<le> exp (14384635852555317 / 36028797018963968 :: real)"
    using exp_double_lower [of "369008638691739796621581 / 302231454903657293676544" "14384635852555317 / 72057594037927936" "1802160208275306258977957 / 1208925819614629174706176"] by simp
  then have "2686501821365842494799013 / 1208925819614629174706176 \<le> exp (14384635852555317 / 18014398509481984 :: real)"
    using exp_double_lower [of "1802160208275306258977957 / 1208925819614629174706176" "14384635852555317 / 36028797018963968" "2686501821365842494799013 / 1208925819614629174706176"] by simp
  then have "10007999171934435 / 4503599627370496 < exp (14384635852555317 / 18014398509481984 :: real)" by simp
  then show ?thesis by (rule ln_less_if [rotated]) simp
qed
lemma rd_ln_inv_9_11: "rd (ln (10007999171934435 / 4503599627370496)) = 3596158963138829 / 4503599627370496"
  using rd_nearI [of 7192317926277658 53 "ln (10007999171934435 / 4503599627370496)"] ln_inv_9_11_lower ln_inv_9_11_upper
  by simp

lemma ln_20_9_lower: "14384635852555317 / 18014398509481984 < ln (2501999792983609 / 1125899906842624 :: real)"
proof -
  have "exp (14384635852555317 / 576460752303423488 :: real) \<le> 619736059470681842295425 / 604462909807314587353088"
    by (rule exp_taylor_upper [of _ 12]) (simp_all add: sum_upto_12 fact_numeral power_divide)
  then have "exp (14384635852555317 / 288230376151711744 :: real) \<le> 79424390061145329864177 / 75557863725914323419136"
    using exp_double_upper [of "14384635852555317 / 576460752303423488" "619736059470681842295425 / 604462909807314587353088" "79424390061145329864177 / 75557863725914323419136"] by simp
  then have "exp (14384635852555317 / 144115188075855872 :: real) \<le> 10436097292712045423317 / 9444732965739290427392"
    using exp_double_upper [of "14384635852555317 / 288230376151711744" "79424390061145329864177 / 75557863725914323419136" "10436097292712045423317 / 9444732965739290427392"] by simp
  then have "exp (14384635852555317 / 72057594037927936 :: real) \<le> 369008638691739796621585 / 302231454903657293676544"
    using exp_double_upper [of "14384635852555317 / 144115188075855872" "10436097292712045423317 / 9444732965739290427392" "369008638691739796621585 / 302231454903657293676544"] by simp
  then have "exp (14384635852555317 / 36028797018963968 :: real) \<le> 1802160208275306258977997 / 1208925819614629174706176"
    using exp_double_upper [of "14384635852555317 / 72057594037927936" "369008638691739796621585 / 302231454903657293676544" "1802160208275306258977997 / 1208925819614629174706176"] by simp
  then have "exp (14384635852555317 / 18014398509481984 :: real) \<le> 2686501821365842494799133 / 1208925819614629174706176"
    using exp_double_upper [of "14384635852555317 / 36028797018963968" "1802160208275306258977997 / 1208925819614629174706176" "2686501821365842494799133 / 1208925819614629174706176"] by simp
  then have "exp (14384635852555317 / 18014398509481984 :: real) < 2501999792983609 / 1125899906842624" by simp
  then show ?thesis by (rule less_ln_if [rotated]) simp
qed

lemma ln_20_9_upper: "ln (2501999792983609 / 1125899906842624 :: real) < 14384635852555319 / 18014398509481984"
proof -
  have "1239472118941363688891131 / 1208925819614629174706176 \<le> exp (14384635852555319 / 576460752303423488 :: real)"
    by (rule exp_taylor_lower [of _ _ 12]) (simp_all add: sum_upto_12 fact_numeral power_divide)
  then have "635395120489162643322353 / 604462909807314587353088 \<le> exp (14384635852555319 / 288230376151711744 :: real)"
    using exp_double_lower [of "1239472118941363688891131 / 1208925819614629174706176" "14384635852555319 / 576460752303423488" "635395120489162643322353 / 604462909807314587353088"] by simp
  then have "667910226733570916361399 / 604462909807314587353088 \<le> exp (14384635852555319 / 144115188075855872 :: real)"
    using exp_double_lower [of "635395120489162643322353 / 604462909807314587353088" "14384635852555319 / 288230376151711744" "667910226733570916361399 / 604462909807314587353088"] by simp
  then have "184504319345869903431813 / 151115727451828646838272 \<le> exp (14384635852555319 / 72057594037927936 :: real)"
    using exp_double_lower [of "667910226733570916361399 / 604462909807314587353088" "14384635852555319 / 144115188075855872" "184504319345869903431813 / 151115727451828646838272"] by simp
  then have "1802160208275306359017923 / 1208925819614629174706176 \<le> exp (14384635852555319 / 36028797018963968 :: real)"
    using exp_double_lower [of "184504319345869903431813 / 151115727451828646838272" "14384635852555319 / 72057594037927936" "1802160208275306359017923 / 1208925819614629174706176"] by simp
  then have "1343250910682921396530283 / 604462909807314587353088 \<le> exp (14384635852555319 / 18014398509481984 :: real)"
    using exp_double_lower [of "1802160208275306359017923 / 1208925819614629174706176" "14384635852555319 / 36028797018963968" "1343250910682921396530283 / 604462909807314587353088"] by simp
  then have "2501999792983609 / 1125899906842624 < exp (14384635852555319 / 18014398509481984 :: real)" by simp
  then show ?thesis by (rule ln_less_if [rotated]) simp
qed
lemma rd_ln_20_9: "rd (ln (2501999792983609 / 1125899906842624)) = 7192317926277659 / 9007199254740992"
  using rd_nearI [of 7192317926277659 53 "ln (2501999792983609 / 1125899906842624)"] ln_20_9_lower ln_20_9_upper
  by simp

text \<open>
  Claim C1, as amended. For every input text and every platform, the sparse embedder
  returns the dictionary whose keys are exactly the tokens of the text, no key twice,
  empty exactly when the text has no token, and which sends each token \<open>t\<close> to the
  float \<open>tf * log1p (1.0 / tf)\<close> computed in that order from the rounded quotient
  \<open>tf = c / N\<close>, where \<open>c\<close> is the number of occurrences of \<open>t\<close> among the tokens and
  \<open>N\<close> the number of tokens. In the arithmetic of the real numbers this weight is
  \<open>(c / N) * ln (1 + N / c)\<close>.
\<close>

theorem tfidf_embed_formula:
  "map_of (tfidf_embed fp text) t =
     (if t \<in> set (tokenize text)
      then Some (let tf_val = fdiv fp (real (count_list (tokenize text) t))
                                      (real (length (tokenize text)))
                 in fmul fp tf_val (log1p fp (fdiv fp 1 tf_val)))
      else None)
   \<and> distinct (map fst (tfidf_embed fp text))
   \<and> ((tfidf_embed fp text = []) = (tokenize text = []))
   \<and> map_of (tfidf_embed exact text) t =
     (if t \<in> set (tokenize text)
      then Some ((real (count_list (tokenize text) t) / real (length (tokenize text)))
                 * ln (1 + real (length (tokenize text)) / real (count_list (tokenize text) t)))
      else None)"
proof (cases "tokenize text = []")
  case True
  then show ?thesis by (simp add: tfidf_embed_def)
next
  case False
  note ne = tfidf_embed_nonempty [OF False]
  have 1: "distinct (map fst (tfidf_embed fp text))"
    unfolding ne by (simp only: map_fst_map_snd Counter_distinct)
  have 2: "tfidf_embed fp text \<noteq> []"
    using False by (simp add: ne Counter_empty_iff)
  have 3: "map_of (tfidf_embed fp text) t =
     (if t \<in> set (tokenize text)
      then Some (let tf_val = fdiv fp (real (count_list (tokenize text) t))
                                      (real (length (tokenize text)))
                 in fmul fp tf_val (log1p fp (fdiv fp 1 tf_val)))
      else None)"
    by (simp add: ne map_of_map_snd Counter_lookup)
  have 4: "map_of (tfidf_embed exact text) t =
     (if t \<in> set (tokenize text)
      then Some ((real (count_list (tokenize text) t) / real (length (tokenize text)))
                 * ln (1 + real (length (tokenize text)) / real (count_list (tokenize text) t)))
      else None)"
    by (simp add: ne map_of_map_snd Counter_lookup exact_def)
  from 1 2 3 4 False show ?thesis by simp
qed

theorem tfidf_embed_formula_witness:
  "map_of (tfidf_embed binary64 ''Ab cd x AB'') ''ab''
     = Some (fmul binary64 (fdiv binary64 2 3) (log1p binary64 (fdiv binary64 1 (fdiv binary64 2 3))))
   \<and> map_of (tfidf_embed exact ''Ab cd x AB'') ''ab'' = Some ((2 / 3) * ln (1 + 3 / 2))
   \<and> map_of (tfidf_embed binary64 ''Ab cd x AB'') ''x'' = None
   \<and> tfidf_embed binary64 ''a'' = []"
  using tfidf_embed_formula [of binary64 "''Ab cd x AB''" "''ab''"]
    tfidf_embed_formula [of binary64 "''Ab cd x AB''" "''x''"]
    tfidf_embed_formula [of binary64 "''a''"]
  by (simp add: tokenize_def is_token_char_def Let_def)

text \<open>
  Claim C1 as stated gives the weight as \<open>(c / N) * ln (1 + N / c)\<close>. The code
  does not divide \<open>N\<close> by \<open>c\<close>: it divides \<open>1.0\<close> by the rounded \<open>c / N\<close>, and
  the two quotients are different doubles for many counts. For nine occurrences among
  eleven tokens they are \<open>1.222222222222222\<close> and \<open>1.2222222222222223\<close>, and the
  weight the code returns, \<open>0.6533244787236313\<close>, is the double below the one the
  formula of the claim gives, \<open>0.6533244787236314\<close>.
\<close>

theorem tfidf_embed_spec_weight_counterexample:
  "map_of (tfidf_embed binary64 ''aa aa aa aa aa aa aa aa aa bb bb'') ''aa''
     = Some (5884623757863539 / 2 ^ 53)
   \<and> spec_weight binary64 (count_list (tokenize ''aa aa aa aa aa aa aa aa aa bb bb'') ''aa'')
         (length (tokenize ''aa aa aa aa aa aa aa aa aa bb bb'')) = 1471155939465885 / 2 ^ 51
   \<and> map_of (tfidf_embed binary64 ''aa aa aa aa aa aa aa aa aa bb bb'') ''aa''
     \<noteq> Some (spec_weight binary64 (count_list (tokenize ''aa aa aa aa aa aa aa aa aa bb bb'') ''aa'')
               (length (tokenize ''aa aa aa aa aa aa aa aa aa bb bb'')))"
proof -
  have 1: "map_of (tfidf_embed binary64 ''aa aa aa aa aa aa aa aa aa bb bb'') ''aa''
     = Some (5884623757863539 / 2 ^ 53)"
    by (simp add: tfidf_embed_def tokenize_9_2 Counter_def binary64_def
        rd_9_11 rd_inv_9_11 rd_ln_inv_9_11 rd_weight_9_11)
  have 2: "spec_weight binary64 (count_list (tokenize ''aa aa aa aa aa aa aa aa aa bb bb'') ''aa'')
         (length (tokenize ''aa aa aa aa aa aa aa aa aa bb bb'')) = 1471155939465885 / 2 ^ 51"
    by (simp add: spec_weight_def tokenize_9_2 binary64_def
        rd_9_11 rd_11_9 rd_ln_20_9 rd_spec_weight_9_11)
  show ?thesis unfolding 1 2 by simp
qed

section \<open>Cosine similarity\<close>

subsection \<open>Signs\<close>

lemma sparse_ok_lookup_nonneg:
  assumes "sparse_ok v" "k \<in> set (map fst v)"
  shows "0 \<le> the (map_of v k)"
proof -
  from assms(2) obtain w where "(k, w) \<in> set v" by auto
  with assms(1) have "map_of v k = Some w" "0 \<le> w"
    by (auto simp: sparse_ok_def list_all_iff)
  then show ?thesis by simp
qed

lemma tfidf_embed_sparse_ok:
  assumes "platform_ok fp"
  shows "sparse_ok (tfidf_embed fp text)"
proof (cases "tokenize text = []")
  case True
  then show ?thesis by (simp add: tfidf_embed_def sparse_ok_def)
next
  case False
  have "distinct (map fst (tfidf_embed fp text))"
    unfolding tfidf_embed_nonempty [OF False] by (simp only: map_fst_map_snd Counter_distinct)
  moreover have "list_all (\<lambda>w. 0 \<le> w) (map snd (tfidf_embed fp text))"
    unfolding tfidf_embed_nonempty [OF False]
    using assms by (auto simp: list_all_iff platform_ok_def Let_def)
  ultimately show ?thesis by (simp add: sparse_ok_def)
qed

lemma magnitude_nonneg:
  assumes "platform_ok fp" "sparse_ok a"
  shows "0 \<le> fsqrt fp (fsum fp (map (\<lambda>v. fmul fp v v) (map snd a)))"
proof -
  have "list_all (\<lambda>x. 0 \<le> x) (map (\<lambda>v. fmul fp v v) (map snd a))"
    using assms by (auto simp: list_all_iff platform_ok_def sparse_ok_def)
  then have "0 \<le> fsum fp (map (\<lambda>v. fmul fp v v) (map snd a))"
    using assms(1) by (simp add: platform_ok_def)
  then show ?thesis using assms(1) by (simp add: platform_ok_def)
qed

lemma dot_product_nonneg:
  assumes "platform_ok fp" "sparse_ok a" "sparse_ok b"
  shows "0 \<le> fsum fp (map (\<lambda>k. fmul fp (the (map_of a k)) (the (map_of b k)))
                  (set_order fp (filter (\<lambda>k. k \<in> set (map fst b)) (map fst a))))"
proof -
  let ?common = "filter (\<lambda>k. k \<in> set (map fst b)) (map fst a)"
  have keys: "set (set_order fp ?common) = set ?common"
    using assms(1) by (simp add: platform_ok_def)
  have "0 \<le> fmul fp (the (map_of a k)) (the (map_of b k))" if "k \<in> set (set_order fp ?common)" for k
  proof -
    from that keys have "k \<in> set (map fst a)" "k \<in> set (map fst b)" by auto
    then have "0 \<le> the (map_of a k)" "0 \<le> the (map_of b k)"
      using assms(2,3) by (simp_all only: sparse_ok_lookup_nonneg)
    then show ?thesis using assms(1) by (simp add: platform_ok_def)
  qed
  then have "list_all (\<lambda>x. 0 \<le> x)
      (map (\<lambda>k. fmul fp (the (map_of a k)) (the (map_of b k))) (set_order fp ?common))"
    by (simp add: list_all_iff)
  then show ?thesis using assms(1) by (simp add: platform_ok_def)
qed

subsection \<open>The bound in exact arithmetic\<close>

lemma cauchy_step:
  fixes x y S F G :: real
  assumes "S\<^sup>2 \<le> F * G" "0 \<le> F" "0 \<le> G"
  shows "(x * y + S)\<^sup>2 \<le> (x\<^sup>2 + F) * (y\<^sup>2 + G)"
proof -
  have 1: "(2 * x * y * S)\<^sup>2 \<le> 4 * x\<^sup>2 * y\<^sup>2 * (F * G)"
  proof -
    have "(2 * x * y * S)\<^sup>2 = 4 * x\<^sup>2 * y\<^sup>2 * S\<^sup>2" by (simp add: power_mult_distrib)
    also have "\<dots> \<le> 4 * x\<^sup>2 * y\<^sup>2 * (F * G)"
      by (rule mult_left_mono [OF assms(1)]) simp
    finally show ?thesis .
  qed
  have 2: "4 * x\<^sup>2 * y\<^sup>2 * (F * G) \<le> (x\<^sup>2 * G + y\<^sup>2 * F)\<^sup>2"
  proof -
    have "0 \<le> (x\<^sup>2 * G - y\<^sup>2 * F)\<^sup>2" by simp
    then show ?thesis by (simp add: power2_eq_square algebra_simps)
  qed
  have 3: "0 \<le> x\<^sup>2 * G + y\<^sup>2 * F" using assms by simp
  have "2 * x * y * S \<le> x\<^sup>2 * G + y\<^sup>2 * F"
    by (rule power2_le_imp_le [OF order_trans [OF 1 2] 3])
  then show ?thesis using assms(1) by (simp add: power2_eq_square algebra_simps)
qed

lemma sum_list_squares_nonneg: "0 \<le> sum_list (map (\<lambda>k. (f k :: real)\<^sup>2) ks)"
  by (induction ks) auto

lemma cauchy_schwarz_list:
  fixes f g :: "'a \<Rightarrow> real"
  shows "(sum_list (map (\<lambda>k. f k * g k) ks))\<^sup>2
           \<le> sum_list (map (\<lambda>k. (f k)\<^sup>2) ks) * sum_list (map (\<lambda>k. (g k)\<^sup>2) ks)"
proof (induction ks)
  case Nil
  then show ?case by simp
next
  case (Cons k ks)
  show ?case
    using cauchy_step [OF Cons.IH sum_list_squares_nonneg sum_list_squares_nonneg, of "f k" "g k"]
    by simp
qed

lemma sum_list_filter_le:
  "sum_list (map (\<lambda>k. (f k :: real)\<^sup>2) (filter P ks)) \<le> sum_list (map (\<lambda>k. (f k)\<^sup>2) ks)"
  by (induction ks) (auto intro: add_increasing)

lemma map_the_map_of:
  "distinct (map fst a) \<Longrightarrow> map (\<lambda>k. the (map_of a k)) (map fst a) = map snd a"
proof (induction a)
  case Nil
  then show ?case by simp
next
  case (Cons p a)
  then have "map (\<lambda>k. the (map_of (p # a) k)) (map fst a) = map (\<lambda>k. the (map_of a k)) (map fst a)"
    by (cases p) (auto intro!: map_cong)
  with Cons show ?case by (cases p) simp
qed

lemma sum_squares_keys:
  assumes "distinct (map fst a)"
  shows "sum_list (map (\<lambda>k. (the (map_of a k))\<^sup>2) (map fst a)) = sum_list (map (\<lambda>v. v * v) (map snd a :: real list))"
proof -
  have "map (\<lambda>k. (the (map_of a k))\<^sup>2) (map fst a) = map (\<lambda>v. v * v) (map (\<lambda>k. the (map_of a k)) (map fst a))"
    by (simp add: power2_eq_square comp_def)
  then show ?thesis by (simp only: map_the_map_of [OF assms])
qed

lemma sum_list_subset_le:
  fixes h :: "'a \<Rightarrow> real"
  assumes "distinct ks" "distinct ls" "set ks \<subseteq> set ls" "\<And>k. 0 \<le> h k"
  shows "sum_list (map h ks) \<le> sum_list (map h ls)"
proof -
  have "sum_list (map h ks) = sum h (set ks)" using assms(1) by (simp add: sum_list_distinct_conv_sum_set)
  also have "\<dots> \<le> sum h (set ls)" by (rule sum_mono2) (use assms in auto)
  also have "\<dots> = sum_list (map h ls)" using assms(2) by (simp add: sum_list_distinct_conv_sum_set)
  finally show ?thesis .
qed


lemma sum_sq_nonneg: "0 \<le> sum_list (map (\<lambda>v. v * v) (xs :: real list))"
  by (induction xs) auto


lemma dot_nonneg:
  assumes "sparse_ok a" "sparse_ok b"
  shows "0 \<le> sum_list (map (\<lambda>k. the (map_of a k) * the (map_of b k))
                 (filter (\<lambda>k. k \<in> set (map fst b)) (map fst a)))"
  using dot_product_nonneg [OF platform_ok_exact assms] by (simp add: exact_def)

lemma dot_le_mags:
  assumes "sparse_ok a" "sparse_ok b"
  shows "sum_list (map (\<lambda>k. the (map_of a k) * the (map_of b k))
                 (filter (\<lambda>k. k \<in> set (map fst b)) (map fst a)))
         \<le> sqrt (sum_list (map (\<lambda>v. v * v) (map snd a)))
           * sqrt (sum_list (map (\<lambda>v. v * v) (map snd b)))"
proof -
  let ?common = "filter (\<lambda>k. k \<in> set (map fst b)) (map fst a)"
  let ?f = "\<lambda>k. the (map_of a k)" and ?g = "\<lambda>k. the (map_of b k)"
  let ?dot = "sum_list (map (\<lambda>k. ?f k * ?g k) ?common)"
  let ?A = "sum_list (map (\<lambda>v. v * v) (map snd a))"
  let ?B = "sum_list (map (\<lambda>v. v * v) (map snd b))"
  have da: "distinct (map fst a)" and db: "distinct (map fst b)"
    using assms by (simp_all add: sparse_ok_def)
  have A: "sum_list (map (\<lambda>k. (?f k)\<^sup>2) ?common) \<le> ?A"
    using sum_list_filter_le [of ?f _ "map fst a"] sum_squares_keys [OF da] by simp
  have "sum_list (map (\<lambda>k. (?g k)\<^sup>2) ?common) \<le> sum_list (map (\<lambda>k. (?g k)\<^sup>2) (map fst b))"
    by (rule sum_list_subset_le) (use da db in auto)
  then have B: "sum_list (map (\<lambda>k. (?g k)\<^sup>2) ?common) \<le> ?B"
    using sum_squares_keys [OF db] by simp
  have "?dot\<^sup>2 \<le> sum_list (map (\<lambda>k. (?f k)\<^sup>2) ?common) * sum_list (map (\<lambda>k. (?g k)\<^sup>2) ?common)"
    by (rule cauchy_schwarz_list)
  also have "\<dots> \<le> ?A * ?B"
    by (rule mult_mono [OF A B]) (simp_all only: sum_list_squares_nonneg sum_sq_nonneg)
  finally have le: "?dot\<^sup>2 \<le> ?A * ?B" .
  have "sqrt (?dot\<^sup>2) \<le> sqrt (?A * ?B)"
    by (rule real_sqrt_le_mono [OF le])
  then have "\<bar>?dot\<bar> \<le> sqrt ?A * sqrt ?B"
    by (simp only: real_sqrt_abs real_sqrt_mult)
  then show ?thesis by linarith
qed

lemma cosine_sparse_exact_le_1:
  assumes "sparse_ok a" and "sparse_ok b"
  shows "cosine_sparse exact a b \<le> 1"
proof -
  let ?common = "filter (\<lambda>k. k \<in> set (map fst b)) (map fst a)"
  let ?dot = "sum_list (map (\<lambda>k. the (map_of a k) * the (map_of b k)) ?common)"
  let ?ma = "sqrt (sum_list (map (\<lambda>v. v * v) (map snd a)))"
  let ?mb = "sqrt (sum_list (map (\<lambda>v. v * v) (map snd b)))"
  have ma: "0 \<le> ?ma" and mb: "0 \<le> ?mb"
    by (simp_all only: real_sqrt_ge_zero sum_sq_nonneg)
  show ?thesis
  proof (cases "?common = [] \<or> ?ma = 0 \<or> ?mb = 0")
    case True
    then have "cosine_sparse exact a b = 0" by (auto simp: cosine_sparse_def exact_def Let_def)
    then show ?thesis by simp
  next
    case False
    then have eq: "cosine_sparse exact a b = ?dot / (?ma * ?mb)"
      by (simp add: cosine_sparse_def exact_def Let_def)
    from False ma mb have pos: "0 < ?ma * ?mb" by (simp add: less_le)
    have "?dot / (?ma * ?mb) \<le> 1"
      using dot_le_mags [OF assms] pos by simp
    then show ?thesis by (simp only: eq)
  qed
qed

subsection \<open>A similarity above one\<close>

text \<open>
  The roundings behind the similarity of the text \<^verbatim>\<open>aa bb bb bb bb bb bb bb\<close> to
  itself: the term frequencies \<open>1 / 8\<close> and \<open>7 / 8\<close> and their reciprocals, the two
  weights, their squares, the sum of the squares (a tie, rounded to the even
  significand), its square root, the square of the root, and the final quotient.
\<close>

lemma rd_1_8: "rd (1 / 8) = 1 / 8"
  using rd_eqI [of "1 / 8" 55 "4503599627370496" 4503599627370496]
  by (simp add: round_half_even_def)

lemma rd_7_8: "rd (7 / 8) = 7 / 8"
  using rd_eqI [of "7 / 8" 53 "7881299347898368" 7881299347898368]
  by (simp add: round_half_even_def)

lemma rd_8: "rd (8) = 8"
  using rd_eqI [of "8" 49 "4503599627370496" 4503599627370496]
  by (simp add: round_half_even_def)

lemma rd_8_7: "rd (8 / 7) = 2573485501354569 / 2251799813685248"
  using rd_eqI [of "8 / 7" 52 "36028797018963968 / 7" 5146971002709138]
  by (simp add: round_half_even_def)

lemma rd_w1: "rd (4947709893870347 / 18014398509481984) = 4947709893870347 / 18014398509481984"
  using rd_eqI [of "4947709893870347 / 18014398509481984" 54 "4947709893870347" 4947709893870347]
  by (simp add: round_half_even_def)

lemma rd_w2: "rd (48053231161635483 / 72057594037927936) = 6006653895204435 / 9007199254740992"
  using rd_eqI [of "48053231161635483 / 72057594037927936" 53 "48053231161635483 / 8" 6006653895204435]
  by (simp add: round_half_even_def)

lemma rd_p1: "rd (24479833193902520374243245900409 / 324518553658426726783156020576256) = 42465741329459 / 562949953421312"
  using rd_eqI [of "24479833193902520374243245900409 / 324518553658426726783156020576256" 56 "24479833193902520374243245900409 / 4503599627370496" 5435614890170752]
  by (simp add: round_half_even_def)

lemma rd_p2: "rd (36079891016774611603090443669225 / 81129638414606681695789005144064) = 8011345146557905 / 18014398509481984"
  using rd_eqI [of "36079891016774611603090443669225 / 81129638414606681695789005144064" 54 "36079891016774611603090443669225 / 4503599627370496" 8011345146557905]
  by (simp add: round_half_even_def)

lemma rd_p1_id: "rd (42465741329459 / 562949953421312) = 42465741329459 / 562949953421312"
  using rd_eqI [of "42465741329459 / 562949953421312" 56 "5435614890170752" 5435614890170752]
  by (simp add: round_half_even_def)

lemma rd_s: "rd (9370248869100593 / 18014398509481984) = 585640554318787 / 1125899906842624"
  using rd_eqI [of "9370248869100593 / 18014398509481984" 53 "9370248869100593 / 2" 4685124434550296]
  by (simp add: round_half_even_def)

lemma rd_mag: "rd (sqrt (585640554318787 / 1125899906842624)) = 3248070554777491 / 4503599627370496"
  using rd_sqrt_eqI [of 6496141109554982 "585640554318787 / 1125899906842624" 53]
  by simp

lemma rd_den: "rd (10549962328812558162804520255081 / 20282409603651670423947251286016) = 4685124434550295 / 9007199254740992"
  using rd_eqI [of "10549962328812558162804520255081 / 20282409603651670423947251286016" 53 "10549962328812558162804520255081 / 2251799813685248" 4685124434550295]
  by (simp add: round_half_even_def)

lemma rd_c: "rd (4685124434550296 / 4685124434550295) = 4503599627370497 / 4503599627370496"
  using rd_eqI [of "4685124434550296 / 4685124434550295" 52 "21099924657625118840842738466816 / 4685124434550295" 4503599627370497]
  by (simp add: round_half_even_def)

text \<open>The logarithms of \<open>1 + 8\<close> and of \<open>1 + 1.1428571428571428\<close>.\<close>

lemma ln_9_lower: "9895419787740693 / 4503599627370496 < ln (9 :: real)"
proof -
  have "exp (9895419787740693 / 144115188075855872 :: real) \<le> 20232043847547781247927 / 18889465931478580854784"
    by (rule exp_taylor_upper [of _ 12]) (simp_all add: sum_upto_12 fact_numeral power_divide)
  then have "exp (9895419787740693 / 72057594037927936 :: real) \<le> 1386882952804136119975549 / 1208925819614629174706176"
    using exp_double_upper [of "9895419787740693 / 144115188075855872" "20232043847547781247927 / 18889465931478580854784" "1386882952804136119975549 / 1208925819614629174706176"] by simp
  then have "exp (9895419787740693 / 36028797018963968 :: real) \<le> 198879481847763254080295 / 151115727451828646838272"
    using exp_double_upper [of "9895419787740693 / 72057594037927936" "1386882952804136119975549 / 1208925819614629174706176" "198879481847763254080295 / 151115727451828646838272"] by simp
  then have "exp (9895419787740693 / 18014398509481984 :: real) \<le> 2093920942154385318130707 / 1208925819614629174706176"
    using exp_double_upper [of "9895419787740693 / 36028797018963968" "198879481847763254080295 / 151115727451828646838272" "2093920942154385318130707 / 1208925819614629174706176"] by simp
  then have "exp (9895419787740693 / 9007199254740992 :: real) \<le> 3626777458843887450462413 / 1208925819614629174706176"
    using exp_double_upper [of "9895419787740693 / 18014398509481984" "2093920942154385318130707 / 1208925819614629174706176" "3626777458843887450462413 / 1208925819614629174706176"] by simp
  then have "exp (9895419787740693 / 4503599627370496 :: real) \<le> 10880332376531662130418895 / 1208925819614629174706176"
    using exp_double_upper [of "9895419787740693 / 9007199254740992" "3626777458843887450462413 / 1208925819614629174706176" "10880332376531662130418895 / 1208925819614629174706176"] by simp
  then have "exp (9895419787740693 / 4503599627370496 :: real) < 9" by simp
  then show ?thesis by (rule less_ln_if [rotated]) simp
qed

lemma ln_9_upper: "ln (9 :: real) < 9895419787740695 / 4503599627370496"
proof -
  have "161856350780382252229617 / 151115727451828646838272 \<le> exp (9895419787740695 / 144115188075855872 :: real)"
    by (rule exp_taylor_lower [of _ _ 12]) (simp_all add: sum_upto_12 fact_numeral power_divide)
  then have "1386882952804136158469161 / 1208925819614629174706176 \<le> exp (9895419787740695 / 72057594037927936 :: real)"
    using exp_double_lower [of "161856350780382252229617 / 151115727451828646838272" "9895419787740695 / 144115188075855872" "1386882952804136158469161 / 1208925819614629174706176"] by simp
  then have "1591035854782106120962309 / 1208925819614629174706176 \<le> exp (9895419787740695 / 36028797018963968 :: real)"
    using exp_double_lower [of "1386882952804136158469161 / 1208925819614629174706176" "9895419787740695 / 72057594037927936" "1591035854782106120962309 / 1208925819614629174706176"] by simp
  then have "2093920942154385550601885 / 1208925819614629174706176 \<le> exp (9895419787740695 / 18014398509481984 :: real)"
    using exp_double_lower [of "1591035854782106120962309 / 1208925819614629174706176" "9895419787740695 / 36028797018963968" "2093920942154385550601885 / 1208925819614629174706176"] by simp
  then have "3626777458843888255766195 / 1208925819614629174706176 \<le> exp (9895419787740695 / 9007199254740992 :: real)"
    using exp_double_lower [of "2093920942154385550601885 / 1208925819614629174706176" "9895419787740695 / 18014398509481984" "3626777458843888255766195 / 1208925819614629174706176"] by simp
  then have "5440166188265833481120793 / 604462909807314587353088 \<le> exp (9895419787740695 / 4503599627370496 :: real)"
    using exp_double_lower [of "3626777458843888255766195 / 1208925819614629174706176" "9895419787740695 / 9007199254740992" "5440166188265833481120793 / 604462909807314587353088"] by simp
  then have "9 < exp (9895419787740695 / 4503599627370496 :: real)" by simp
  then show ?thesis by (rule ln_less_if [rotated]) simp
qed
lemma rd_ln_9: "rd (ln (9)) = 4947709893870347 / 2251799813685248"
  using rd_nearI [of 4947709893870347 51 "ln (9)"] ln_9_lower ln_9_upper
  by simp

lemma ln_15_7_lower: "13729494617610137 / 18014398509481984 < ln (4825285315039817 / 2251799813685248 :: real)"
proof -
  have "exp (13729494617610137 / 576460752303423488 :: real) \<le> 1238064272812962629662867 / 1208925819614629174706176"
    by (rule exp_taylor_upper [of _ 12]) (simp_all add: sum_upto_12 fact_numeral power_divide)
  then have "exp (13729494617610137 / 288230376151711744 :: real) \<le> 316976260814849576562421 / 302231454903657293676544"
    using exp_double_upper [of "13729494617610137 / 576460752303423488" "1238064272812962629662867 / 1208925819614629174706176" "316976260814849576562421 / 302231454903657293676544"] by simp
  then have "exp (13729494617610137 / 144115188075855872 :: real) \<le> 1329761655049329690714187 / 1208925819614629174706176"
    using exp_double_upper [of "13729494617610137 / 288230376151711744" "316976260814849576562421 / 302231454903657293676544" "1329761655049329690714187 / 1208925819614629174706176"] by simp
  then have "exp (13729494617610137 / 72057594037927936 :: real) \<le> 1462675402038484804760355 / 1208925819614629174706176"
    using exp_double_upper [of "13729494617610137 / 144115188075855872" "1329761655049329690714187 / 1208925819614629174706176" "1462675402038484804760355 / 1208925819614629174706176"] by simp
  then have "exp (13729494617610137 / 36028797018963968 :: real) \<le> 1769686193326922728296473 / 1208925819614629174706176"
    using exp_double_upper [of "13729494617610137 / 72057594037927936" "1462675402038484804760355 / 1208925819614629174706176" "1769686193326922728296473 / 1208925819614629174706176"] by simp
  then have "exp (13729494617610137 / 18014398509481984 :: real) \<le> 1295277663872816849348889 / 604462909807314587353088"
    using exp_double_upper [of "13729494617610137 / 36028797018963968" "1769686193326922728296473 / 1208925819614629174706176" "1295277663872816849348889 / 604462909807314587353088"] by simp
  then have "exp (13729494617610137 / 18014398509481984 :: real) < 4825285315039817 / 2251799813685248" by simp
  then show ?thesis by (rule less_ln_if [rotated]) simp
qed

lemma ln_15_7_upper: "ln (4825285315039817 / 2251799813685248 :: real) < 13729494617610139 / 18014398509481984"
proof -
  have "154758034101620329244783 / 151115727451828646838272 \<le> exp (13729494617610139 / 576460752303423488 :: real)"
    by (rule exp_taylor_lower [of _ _ 12]) (simp_all add: sum_upto_12 fact_numeral power_divide)
  then have "1267905043259398315047539 / 1208925819614629174706176 \<le> exp (13729494617610139 / 288230376151711744 :: real)"
    using exp_double_lower [of "154758034101620329244783 / 151115727451828646838272" "13729494617610139 / 576460752303423488" "1267905043259398315047539 / 1208925819614629174706176"] by simp
  then have "1329761655049329709168329 / 1208925819614629174706176 \<le> exp (13729494617610139 / 144115188075855872 :: real)"
    using exp_double_lower [of "1267905043259398315047539 / 1208925819614629174706176" "13729494617610139 / 288230376151711744" "1329761655049329709168329 / 1208925819614629174706176"] by simp
  then have "731337701019242422678867 / 604462909807314587353088 \<le> exp (13729494617610139 / 72057594037927936 :: real)"
    using exp_double_lower [of "1329761655049329709168329 / 1208925819614629174706176" "13729494617610139 / 144115188075855872" "731337701019242422678867 / 604462909807314587353088"] by simp
  then have "1769686193326922826533745 / 1208925819614629174706176 \<le> exp (13729494617610139 / 36028797018963968 :: real)"
    using exp_double_lower [of "731337701019242422678867 / 604462909807314587353088" "13729494617610139 / 72057594037927936" "1769686193326922826533745 / 1208925819614629174706176"] by simp
  then have "647638831936408496576765 / 302231454903657293676544 \<le> exp (13729494617610139 / 18014398509481984 :: real)"
    using exp_double_lower [of "1769686193326922826533745 / 1208925819614629174706176" "13729494617610139 / 36028797018963968" "647638831936408496576765 / 302231454903657293676544"] by simp
  then have "4825285315039817 / 2251799813685248 < exp (13729494617610139 / 18014398509481984 :: real)" by simp
  then show ?thesis by (rule ln_less_if [rotated]) simp
qed
lemma rd_ln_15_7: "rd (ln (4825285315039817 / 2251799813685248)) = 6864747308805069 / 9007199254740992"
  using rd_nearI [of 6864747308805069 53 "ln (4825285315039817 / 2251799813685248)"] ln_15_7_lower ln_15_7_upper
  by simp

lemma tokenize_1_7:
  "tokenize ''aa bb bb bb bb bb bb bb''
     = [''aa'', ''bb'', ''bb'', ''bb'', ''bb'', ''bb'', ''bb'', ''bb'']"
  by (simp add: tokenize_def is_token_char_def)

lemma tfidf_embed_1_7:
  "tfidf_embed binary64 ''aa bb bb bb bb bb bb bb''
     = [(''aa'', 4947709893870347 / 2 ^ 54), (''bb'', 6006653895204435 / 2 ^ 53)]"
  by (simp add: tfidf_embed_def tokenize_1_7 Counter_def binary64_def
      rd_1_8 rd_7_8 rd_8 rd_8_7 rd_ln_9 rd_ln_15_7 rd_w1 rd_w2)

lemma cosine_sparse_1_7:
  "cosine_sparse binary64
     [(''aa'', 4947709893870347 / 2 ^ 54), (''bb'', 6006653895204435 / 2 ^ 53)]
     [(''aa'', 4947709893870347 / 2 ^ 54), (''bb'', 6006653895204435 / 2 ^ 53)]
   = 4503599627370497 / 2 ^ 52"
  by (simp add: cosine_sparse_def binary64_def rd_p1 rd_p2 rd_p1_id rd_s rd_mag rd_den rd_c)

subsection \<open>The claim\<close>

text \<open>
  Claim C3, as amended. For every platform whose operations keep non-negative numbers
  non-negative (IEEE arithmetic does, \<open>platform_ok_binary64\<close>) and for sparse vectors
  with non-negative weights (every vector the sparse embedder returns is one,
  \<open>tfidf_embed_sparse_ok\<close>), the cosine similarity is at least \<open>0\<close>, and it is \<open>0\<close>
  whenever the two vectors share no term or either has zero magnitude. It is at most
  \<open>1\<close> in the arithmetic of the real numbers; the rounded quotient can be above \<open>1\<close>.
\<close>

theorem cosine_sparse_bounds:
  assumes "platform_ok fp" and "sparse_ok a" and "sparse_ok b"
  shows "0 \<le> cosine_sparse fp a b
    \<and> (set (map fst a) \<inter> set (map fst b) = {}
          \<or> fsqrt fp (fsum fp (map (\<lambda>v. fmul fp v v) (map snd a))) = 0
          \<or> fsqrt fp (fsum fp (map (\<lambda>v. fmul fp v v) (map snd b))) = 0
        \<longrightarrow> cosine_sparse fp a b = 0)
    \<and> cosine_sparse exact a b \<le> 1"
proof -
  let ?common = "filter (\<lambda>k. k \<in> set (map fst b)) (map fst a)"
  let ?dot = "fsum fp (map (\<lambda>k. fmul fp (the (map_of a k)) (the (map_of b k)))
                        (set_order fp ?common))"
  let ?ma = "fsqrt fp (fsum fp (map (\<lambda>v. fmul fp v v) (map snd a)))"
  let ?mb = "fsqrt fp (fsum fp (map (\<lambda>v. fmul fp v v) (map snd b)))"
  have c0: "?common = [] \<longleftrightarrow> set (map fst a) \<inter> set (map fst b) = {}"
    by (auto simp: filter_empty_conv)
  have ma: "0 \<le> ?ma" by (rule magnitude_nonneg [OF assms(1,2)])
  have mb: "0 \<le> ?mb" by (rule magnitude_nonneg [OF assms(1,3)])
  have le: "cosine_sparse exact a b \<le> 1" by (rule cosine_sparse_exact_le_1 [OF assms(2,3)])
  show ?thesis
  proof (cases "?common = [] \<or> ?ma = 0 \<or> ?mb = 0")
    case True
    then have "cosine_sparse fp a b = 0" by (auto simp: cosine_sparse_def Let_def)
    then show ?thesis using le by simp
  next
    case False
    then have eq: "cosine_sparse fp a b = fdiv fp ?dot (fmul fp ?ma ?mb)"
      by (simp add: cosine_sparse_def Let_def)
    have "0 \<le> fmul fp ?ma ?mb" using assms(1) ma mb by (simp add: platform_ok_def)
    moreover have "0 \<le> ?dot" by (rule dot_product_nonneg [OF assms])
    ultimately have "0 \<le> fdiv fp ?dot (fmul fp ?ma ?mb)"
      using assms(1) by (simp add: platform_ok_def)
    then show ?thesis using False c0 le by (simp add: eq)
  qed
qed

theorem cosine_sparse_bounds_witness:
  "0 \<le> cosine_sparse binary64 (tfidf_embed binary64 ''autonomous agents govern policy'')
          (tfidf_embed binary64 ''policy for agents'')
   \<and> cosine_sparse exact (tfidf_embed binary64 ''autonomous agents govern policy'')
          (tfidf_embed binary64 ''policy for agents'') \<le> 1
   \<and> cosine_sparse binary64 [(''ab'', 1)] [(''cd'', 2)] = 0
   \<and> cosine_sparse binary64 [(''ab'', 0)] [(''ab'', 2)] = 0"
proof -
  note ok = platform_ok_binary64
  have 1: "sparse_ok [(''ab'', 1)]" "sparse_ok [(''cd'', 2)]" "sparse_ok [(''ab'', 0)]"
    "sparse_ok [(''ab'', 2)]"
    by (simp_all add: sparse_ok_def)
  have 2: "fsqrt binary64 (fsum binary64 (map (\<lambda>v. fmul binary64 v v) (map snd [(''ab'', 0)]))) = 0"
    by (simp add: binary64_def rd_def)
  show ?thesis
    using cosine_sparse_bounds [OF ok tfidf_embed_sparse_ok [OF ok] tfidf_embed_sparse_ok [OF ok],
        of "''autonomous agents govern policy''" "''policy for agents''"]
      cosine_sparse_bounds [OF ok 1(1) 1(2)] cosine_sparse_bounds [OF ok 1(3) 1(4)] 2
    by simp
qed

text \<open>
  Claim C3 as stated bounds the similarity by \<open>1\<close>. The text
  \<^verbatim>\<open>aa bb bb bb bb bb bb bb\<close> is embedded as the weights \<open>0.27465307216702745\<close>
  and \<open>0.6668725455410346\<close>; the sum of their rounded squares is
  \<open>0.5201533020471656\<close>, the rounded square of its rounded square root is the double
  below it, and the similarity of the text to itself is their rounded quotient,
  \<open>1.0000000000000002\<close>.
\<close>

theorem cosine_sparse_above_one_counterexample:
  "tfidf_embed binary64 ''aa bb bb bb bb bb bb bb''
     = [(''aa'', 4947709893870347 / 2 ^ 54), (''bb'', 6006653895204435 / 2 ^ 53)]
   \<and> cosine_sparse binary64 (tfidf_embed binary64 ''aa bb bb bb bb bb bb bb'')
       (tfidf_embed binary64 ''aa bb bb bb bb bb bb bb'') = 1 + 1 / 2 ^ 52
   \<and> \<not> cosine_sparse binary64 (tfidf_embed binary64 ''aa bb bb bb bb bb bb bb'')
       (tfidf_embed binary64 ''aa bb bb bb bb bb bb bb'') \<le> 1"
  unfolding tfidf_embed_1_7 cosine_sparse_1_7 by simp

section \<open>The store\<close>

subsection \<open>Lists, slices and the stable sort\<close>

lemma insort_key_map_commute:
  "insort_key k (g x) (map g xs) = map g (insort_key (\<lambda>y. k (g y)) x xs)"
  by (induction xs) auto

lemma sort_key_map_commute:
  "sort_key k (map g xs) = map g (sort_key (\<lambda>y. k (g y)) xs)"
  by (induction xs) (auto simp: insort_key_map_commute)

lemma sort_reverse_map:
  "(\<And>x. key (g x) = key' x) \<Longrightarrow> sort_reverse key (map g xs) = map g (sort_reverse key' xs)"
  by (simp add: sort_reverse_def sort_key_map_commute)

lemma py_slice_map: "py_slice (map f xs) i j = map f (py_slice xs i j)"
  by (simp add: py_slice_def Let_def take_map drop_map)

lemma py_slice_0_nonneg: "0 \<le> k \<Longrightarrow> py_slice xs 0 k = take (nat k) xs"
  by (simp add: py_slice_def norm_index_def Let_def min_def)

lemma py_slice_0_neg: "k < 0 \<Longrightarrow> py_slice xs 0 k = take (nat (int (length xs) + k)) xs"
  by (simp add: py_slice_def norm_index_def Let_def max_def)

lemma py_slice_0_prefix: "\<exists>rest. xs = py_slice xs 0 k @ rest"
  by (metis append_take_drop_id py_slice_0_neg py_slice_0_nonneg not_le)

lemma sorted_sort_reverse: "sorted_wrt (\<lambda>x y. key y \<le> key x) (sort_reverse key xs)"
proof -
  have "sorted (map (\<lambda>x. - key x) (sort_key (\<lambda>x. - key x) xs))" by (rule sorted_sort_key)
  then show ?thesis by (simp add: sort_reverse_def sorted_map)
qed

lemma sort_reverse_stable:
  "filter (\<lambda>x. key x = v) (sort_reverse key xs) = filter (\<lambda>x. key x = v) xs"
  using sort_key_stable [of "\<lambda>x. - key x" "- v" xs] by (simp add: sort_reverse_def)

lemma length_sort_reverse: "length (sort_reverse key xs) = length xs"
  by (simp add: sort_reverse_def)

lemma sparse_embed_text: "sparse (embed_text fp env q) = Some (tfidf_embed fp q)"
  by (simp add: embed_text_def Let_def)

lemma query_eq:
  "query fp env s q top_k mf =
     Inr (py_slice (sort_reverse fst (scored fp (tfidf_embed fp q) (candidates s mf))) 0 top_k)"
proof (cases "index s = []")
  case True
  then have "candidates s mf = []" by (simp add: candidates_def split: option.splits)
  with True show ?thesis by (simp add: query_def scored_def sort_reverse_def py_slice_def)
next
  case False
  then show ?thesis by (simp add: query_def sparse_embed_text)
qed

subsection \<open>The index is a dictionary keyed by document id\<close>

lemma dict_set_keys:
  "map fst (dict_set k v kvs) = (if k \<in> set (map fst kvs) then map fst kvs else map fst kvs @ [k])"
  by (induction kvs) force+

lemma dict_set_lookup: "map_of (dict_set k v kvs) k' = (if k' = k then Some v else map_of kvs k')"
  by (induction kvs) auto

lemma dict_set_length:
  "length (dict_set k v kvs) = (if k \<in> set (map fst kvs) then length kvs else Suc (length kvs))"
  by (induction kvs) force+

lemma dict_set_all:
  "list_all P kvs \<Longrightarrow> P (k, v) \<Longrightarrow> list_all P (dict_set k v kvs)"
  by (induction kvs) auto

lemma dict_set_inv:
  assumes "distinct (map fst idx)" "list_all (\<lambda>(k, d). doc_id d = k) idx" "doc_id d = k"
  shows "distinct (map fst (dict_set k d idx)) \<and> list_all (\<lambda>(k, d). doc_id d = k) (dict_set k d idx)"
  using assms by (simp add: dict_set_keys dict_set_all)

lemma doc_id_Document [simp]: "doc_id (Document env i c e md ts cid rid) = i"
  and content_Document [simp]: "content (Document env i c e md ts cid rid) = c"
  by (simp_all add: Document_def)

lemma index_upsert:
  "index (fst (upsert fp env s did c md cid rid sk)) =
     dict_set did (Document env did c (if \<not> sk then embed_text fp env c else empty_embedding)
                     (Some (case md of None \<Rightarrow> [] | Some m \<Rightarrow> m)) None cid rid) (index s)"
  by (simp add: upsert_def flush_def Let_def)

lemma upsert_inv: "store_inv s \<Longrightarrow> store_inv (fst (upsert fp env s did c md cid rid sk))"
  unfolding store_inv_def index_upsert by (rule dict_set_inv) simp_all

lemma from_dict_to_dict:
  "\<exists>d'. from_dict env (to_dict d) = Inr d' \<and> doc_id d' = doc_id d \<and> content d' = content d"
  by (simp add: from_dict_def to_dict_def)

lemma from_dict_Inr:
  "from_dict env d = Inr doc \<Longrightarrow> s_id d = Some (doc_id doc) \<and> s_content d = Some (content doc)"
  by (auto simp: from_dict_def split: option.splits)

lemma from_dict_Inl:
  "from_dict env d = Inl e \<Longrightarrow> s_id d = None \<or> s_content d = None"
  by (auto simp: from_dict_def split: option.splits)

lemma summary_dict_set:
  "map (\<lambda>(k, d). (k, content d)) (dict_set k v idx)
     = dict_set k (content v) (map (\<lambda>(k, d). (k, content d)) idx)"
  by (induction idx) auto

lemma load_lines_summary:
  "map (\<lambda>(k, d). (k, content d)) (load_lines envs n ls idx)
     = foldl (\<lambda>acc l. case line_entry l of None \<Rightarrow> acc | Some (i, c) \<Rightarrow> dict_set i c acc)
         (map (\<lambda>(k, d). (k, content d)) idx) ls"
proof (induction ls arbitrary: n idx)
  case Nil
  then show ?case by simp
next
  case (Cons l ls)
  show ?case
  proof (cases l)
    case (Object d)
    show ?thesis
    proof (cases "from_dict (envs n) d")
      case (Inl e)
      with from_dict_Inl [OF Inl] Object show ?thesis
        by (auto simp: Cons.IH split: option.splits)
    next
      case (Inr doc)
      with from_dict_Inr [OF Inr] Object show ?thesis
        by (simp add: Cons.IH summary_dict_set)
    qed
  qed (simp_all add: Cons.IH)
qed

lemma load_lines_inv:
  "distinct (map fst idx) \<and> list_all (\<lambda>(k, d). doc_id d = k) idx \<Longrightarrow>
   distinct (map fst (load_lines envs n ls idx))
     \<and> list_all (\<lambda>(k, d). doc_id d = k) (load_lines envs n ls idx)"
proof (induction ls arbitrary: n idx)
  case Nil
  then show ?case by simp
next
  case (Cons l ls)
  show ?case
  proof (cases l)
    case (Object d)
    show ?thesis
    proof (cases "from_dict (envs n) d")
      case (Inl e)
      with Object Cons show ?thesis by simp
    next
      case (Inr doc)
      have "distinct (map fst (dict_set (doc_id doc) doc idx))
          \<and> list_all (\<lambda>(k, d). doc_id d = k) (dict_set (doc_id doc) doc idx)"
        by (rule dict_set_inv) (use Cons.prems in simp_all)
      from Cons.IH [OF this] Object Inr show ?thesis by simp
    qed
  qed (use Cons in simp_all)
qed

lemma VectorStore_inv: "store_inv (VectorStore envs f)"
  using load_lines_inv [of "[]" envs 0]
  by (simp add: VectorStore_def load_def store_inv_def split: option.splits)

lemma upsert_call_inv: "store_inv s \<Longrightarrow> store_inv (upsert_call fp s c)"
  by (simp add: upsert_call_def upsert_inv)

lemma foldl_upsert_call_inv: "store_inv s \<Longrightarrow> store_inv (foldl (upsert_call fp) s cs)"
  by (induction cs arbitrary: s) (simp_all add: upsert_call_inv)

lemma dict_set_fresh: "k \<notin> set (map fst kvs) \<Longrightarrow> dict_set k v kvs = kvs @ [(k, v)]"
  by (induction kvs) auto

lemma flushed_summary:
  "distinct (map fst acc @ map fst idx) \<Longrightarrow> list_all (\<lambda>(k, d). doc_id d = k) idx \<Longrightarrow>
   foldl (\<lambda>acc l. case line_entry l of None \<Rightarrow> acc | Some (i, c) \<Rightarrow> dict_set i c acc) acc
     (map (\<lambda>doc. Object (to_dict doc)) (map snd idx))
   = acc @ map (\<lambda>(k, d). (k, content d)) idx"
proof (induction idx arbitrary: acc)
  case Nil
  then show ?case by simp
next
  case (Cons p idx)
  obtain k d where p: "p = (k, d)" by (cases p)
  from Cons.prems p have kd: "doc_id d = k" and fresh: "k \<notin> set (map fst acc)"
    and rest: "list_all (\<lambda>(k, d). doc_id d = k) idx"
    and dist: "distinct (map fst (acc @ [(k, content d)]) @ map fst idx)"
    by auto
  show ?case
    using Cons.IH [OF dist rest] kd fresh
    by (simp add: p to_dict_def dict_set_fresh)
qed

lemma disk_upsert:
  "disk_ok env \<Longrightarrow>
   disk (fst (upsert fp env s did c md cid rid sk))
     = Some (map (\<lambda>doc. Object (to_dict doc)) (map snd (index (fst (upsert fp env s did c md cid rid sk)))))"
  by (simp add: upsert_def flush_def Let_def)

lemma disk_upsert_failed:
  "\<not> disk_ok env \<Longrightarrow> disk (fst (upsert fp env s did c md cid rid sk)) = disk s"
  by (simp add: upsert_def flush_def Let_def)

lemma index_store2: "index store2 = [(''doc-a'', doc_a), (''doc-b'', doc_b)]"
  by (simp add: store2_def store0_def index_upsert VectorStore_def load_def doc_a_def doc_b_def)

lemma scored_store2:
  "scored fp qs (candidates store2 None) = [(0, doc_a), (0, doc_b)]"
  by (simp add: scored_def candidates_def index_store2 doc_a_def doc_b_def Document_def
      empty_embedding_def cosine_sparse_def)

lemma query_store2_1: "query binary64 env0 store2 ''policy'' 1 None = Inr [(0, doc_a)]"
  by (simp add: query_eq scored_store2 sort_reverse_def py_slice_def norm_index_def)

subsection \<open>Query\<close>

text \<open>
  Claim C2. For every platform, store, query text, filter and \<open>top_k\<close>, \<open>query\<close>
  returns a list \<open>r\<close> of \<open>(score, document)\<close> pairs that is a prefix of a list
  \<open>r @ rest\<close> sorted by descending score in which the pairs of every score \<open>v\<close>
  stand in the order of the store's iteration (a stable sort, no secondary key); for a
  number \<open>top_k\<close> of results, which is not negative, its length is at most \<open>top_k\<close>
  (it is the smaller of \<open>top_k\<close> and the number of candidates); when the store is
  empty it is empty, whatever \<open>top_k\<close> is. The list \<open>r @ rest\<close> holds the candidates
  with the scores that the arithmetic of the platform gives them. (Python's slice also
  accepts a negative \<open>top_k\<close>, and then leaves out the last \<open>- top_k\<close> candidates.)
\<close>

theorem query_contract:
  "\<exists>r rest. query fp env s q top_k mf = Inr r
     \<and> (0 \<le> top_k \<longrightarrow> int (length r) \<le> top_k
           \<and> length r = min (nat top_k) (length (candidates s mf)))
     \<and> (top_k < 0 \<longrightarrow> length r = length (candidates s mf) - nat (- top_k))
     \<and> sorted_wrt (\<lambda>x y. fst y \<le> fst x) (r @ rest)
     \<and> (\<forall>v. filter (\<lambda>x. fst x = v) (r @ rest)
              = filter (\<lambda>x. fst x = v) (scored fp (tfidf_embed fp q) (candidates s mf)))
     \<and> (index s = [] \<longrightarrow> r = [])"
proof -
  let ?sc = "scored fp (tfidf_embed fp q) (candidates s mf)"
  let ?full = "sort_reverse fst ?sc"
  let ?r = "py_slice ?full 0 top_k"
  obtain rest where rest: "?full = ?r @ rest" using py_slice_0_prefix by blast
  have 1: "query fp env s q top_k mf = Inr ?r" by (rule query_eq)
  have 2: "0 \<le> top_k \<longrightarrow> int (length ?r) \<le> top_k \<and> length ?r = min (nat top_k) (length (candidates s mf))"
    by (auto simp: py_slice_0_nonneg length_sort_reverse scored_def)
  have 6: "top_k < 0 \<longrightarrow> length ?r = length (candidates s mf) - nat (- top_k)"
    by (auto simp: py_slice_0_neg length_sort_reverse scored_def)
  have 3: "sorted_wrt (\<lambda>x y. fst y \<le> fst x) (?r @ rest)"
    using sorted_sort_reverse [of fst ?sc] rest by simp
  have 4: "\<forall>v. filter (\<lambda>x. fst x = v) (?r @ rest) = filter (\<lambda>x. fst x = v) ?sc"
    using sort_reverse_stable [of fst _ ?sc] rest by simp
  have 5: "index s = [] \<longrightarrow> ?r = []"
    by (simp add: candidates_def scored_def sort_reverse_def py_slice_def split: option.splits)
  from 1 2 3 4 5 6 show ?thesis by blast
qed

theorem query_contract_witness:
  "query binary64 env0 store2 ''policy'' 1 None = Inr [(0, doc_a)]
   \<and> (\<exists>rest. sorted_wrt (\<lambda>x y. fst y \<le> fst x) ([(0 :: real, doc_a)] @ rest)
        \<and> filter (\<lambda>x. fst x = 0) ([(0, doc_a)] @ rest) = [(0, doc_a), (0, doc_b)])
   \<and> query binary64 env0 store0 ''policy'' (- 3) None = Inr []"
proof -
  obtain r rest where r: "query binary64 env0 store2 ''policy'' 1 None = Inr r"
    and srt: "sorted_wrt (\<lambda>x y. fst y \<le> fst x) (r @ rest)"
    and stable: "\<forall>v. filter (\<lambda>x. fst x = v) (r @ rest)
       = filter (\<lambda>x. fst x = v) (scored binary64 (tfidf_embed binary64 ''policy'') (candidates store2 None))"
    using query_contract [of binary64 env0 store2 "''policy''" 1 None] by blast
  from r have r_eq: "r = [(0, doc_a)]" by (simp add: query_store2_1)
  from stable have "filter (\<lambda>x. fst x = 0) (r @ rest) = [(0, doc_a), (0, doc_b)]"
    by (simp add: scored_store2)
  with srt have 1: "\<exists>rest. sorted_wrt (\<lambda>x y. fst y \<le> fst x) ([(0 :: real, doc_a)] @ rest)
        \<and> filter (\<lambda>x. fst x = 0) ([(0, doc_a)] @ rest) = [(0, doc_a), (0, doc_b)]"
    unfolding r_eq by blast
  have "index store0 = []"
    by (simp add: store0_def VectorStore_def load_def)
  with query_contract [of binary64 env0 store0 "''policy''" "- 3" None]
  have 2: "query binary64 env0 store0 ''policy'' (- 3) None = Inr []" by auto
  from 1 2 show ?thesis by (simp add: query_store2_1)
qed

lemma candidates_without_dense:
  "candidates (s\<lparr>index := map (\<lambda>(k, d). (k, without_dense d)) (index s)\<rparr>) mf
     = map without_dense (candidates s mf)"
  by (simp add: candidates_def without_dense_def filter_map comp_def case_prod_unfold
      split: option.splits)

lemma scored_without_dense:
  "scored fp qs (map without_dense ds) = map (\<lambda>(sc, d). (sc, without_dense d)) (scored fp qs ds)"
  by (simp add: scored_def without_dense_def)

lemma query_without_dense:
  "query fp env (s\<lparr>index := map (\<lambda>(k, d). (k, without_dense d)) (index s)\<rparr>) q top_k mf
     = map_sum id (map (\<lambda>(sc, d). (sc, without_dense d))) (query fp env' s q top_k mf)"
proof -
  have "sort_reverse fst (map (\<lambda>(sc, d). (sc, without_dense d)) xs)
        = map (\<lambda>(sc, d). (sc, without_dense d)) (sort_reverse fst xs)" for xs :: "(real \<times> document) list"
    by (rule sort_reverse_map) auto
  then show ?thesis
    by (simp add: query_eq candidates_without_dense scored_without_dense py_slice_map)
qed

lemma doc_id_without_dense: "doc_id (without_dense d) = doc_id d"
  by (simp add: without_dense_def)

text \<open>
  Claim C9. For any two stores whose documents are identical except in the dense
  components of their embeddings, \<open>query\<close> returns the same ranked results (the same
  scores and document ids in the same order) for every query text, \<open>top_k\<close> and
  filter, whatever the configured dense backend returns for the query.
\<close>

theorem query_ignores_dense:
  assumes "map (\<lambda>(k, d). (k, without_dense d)) (index s1)
             = map (\<lambda>(k, d). (k, without_dense d)) (index s2)"
  shows "map_sum id (map (\<lambda>(sc, d). (sc, doc_id d))) (query fp env1 s1 q top_k mf)
           = map_sum id (map (\<lambda>(sc, d). (sc, doc_id d))) (query fp env2 s2 q top_k mf)"
proof -
  let ?E = "\<lambda>s. s\<lparr>index := map (\<lambda>(k, d). (k, without_dense d)) (index s)\<rparr>"
  let ?P = "map_sum id (map (\<lambda>(sc, d). (sc, doc_id d :: string)))"
  have P: "?P (map_sum id (map (\<lambda>(sc, d). (sc, without_dense d))) x) = ?P x"
    for x :: "py_error + (real \<times> document) list"
    by (cases x) (simp_all add: case_prod_unfold comp_def doc_id_without_dense)
  have "index (?E s1) = index (?E s2)"
    using assms by simp
  then have c: "candidates (?E s1) mf = candidates (?E s2) mf"
    by (simp only: candidates_def)
  have "query fp env1 (?E s1) q top_k mf = query fp env1 (?E s2) q top_k mf"
    by (simp only: query_eq c)
  then have "?P (query fp env1 (?E s1) q top_k mf) = ?P (query fp env1 (?E s2) q top_k mf)"
    by simp
  then show ?thesis
    unfolding query_without_dense [of fp env1 s1 q top_k mf env1]
      query_without_dense [of fp env1 s2 q top_k mf env2] P .
qed

theorem query_ignores_dense_witness:
  "map_sum id (map (\<lambda>(sc, d). (sc, doc_id d)))
      (query binary64 env0 (store2\<lparr>index := [(''doc-a'', doc_a_dense), (''doc-b'', doc_b)]\<rparr>) ''policy'' 5 None)
   = map_sum id (map (\<lambda>(sc, d). (sc, doc_id d))) (query binary64 env0 store2 ''policy'' 5 None)
   \<and> doc_a_dense \<noteq> doc_a"
proof -
  have ne: "doc_a_dense \<noteq> doc_a"
  proof
    assume "doc_a_dense = doc_a"
    then have "dense (embedding doc_a_dense) = dense (embedding doc_a)" by simp
    then show False
      by (simp add: doc_a_dense_def doc_a_def Document_def empty_embedding_def)
  qed
  have "map (\<lambda>(k, d). (k, without_dense d))
           (index (store2\<lparr>index := [(''doc-a'', doc_a_dense), (''doc-b'', doc_b)]\<rparr>))
        = map (\<lambda>(k, d). (k, without_dense d)) (index store2)"
    by (simp add: index_store2 without_dense_def doc_a_dense_def)
  from query_ignores_dense [OF this] ne show ?thesis by simp
qed

subsection \<open>Upsert\<close>

text \<open>
  Claim C7. In a store whose index is a dictionary keyed by document id (every store
  \<^verbatim>\<open>VectorStore\<close> constructs is one, and \<open>upsert\<close> keeps it one), after
  \<open>upsert(id, A)\<close> followed by \<open>upsert(id, B)\<close> the count is the count after the
  first call, \<open>get(id)\<close> is the document built from the arguments of the second call
  alone (content \<open>B\<close>, its embedding, metadata and timestamp: nothing of the prior
  document is merged), and no id occurs twice in the index, whose ids and order are
  unchanged by the second call.
\<close>

theorem upsert_replaces:
  assumes "store_inv s"
    and "s1 = fst (upsert fp1 env1 s did a md1 cid1 rid1 sk1)"
    and "s2 = fst (upsert fp2 env2 s1 did b md2 cid2 rid2 sk2)"
  shows "count s2 = count s1
     \<and> get s2 did = Some (Document env2 did b
                            (if \<not> sk2 then embed_text fp2 env2 b else empty_embedding)
                            (Some (case md2 of None \<Rightarrow> [] | Some m \<Rightarrow> m)) None cid2 rid2)
     \<and> map_option content (get s2 did) = Some b
     \<and> distinct (map fst (index s2))
     \<and> map fst (index s2) = map fst (index s1)"
proof -
  have k1: "did \<in> set (map fst (index s1))"
    unfolding assms(2) index_upsert by (simp add: dict_set_keys)
  have inv2: "store_inv s2"
    unfolding assms(2,3) by (intro upsert_inv assms(1))
  show ?thesis
    using k1 inv2
    by (simp add: count_def get_def assms(3) index_upsert dict_set_length dict_set_lookup
        dict_set_keys store_inv_def del: set_map)
qed


theorem upsert_replaces_witness:
  "count (fst (upsert binary64 env0 store2 ''doc-b'' ''delta'' None None [] True)) = 2
   \<and> map_option content (get (fst (upsert binary64 env0 store2 ''doc-b'' ''delta'' None None [] True)) ''doc-b'')
       = Some ''delta''
   \<and> map fst (index (fst (upsert binary64 env0 store2 ''doc-b'' ''delta'' None None [] True)))
       = [''doc-a'', ''doc-b'']"
proof -
  have inv: "store_inv (fst (upsert binary64 env0 store0 ''doc-a'' ''alpha beta'' None None [] True))"
    by (intro upsert_inv) (simp add: store0_def VectorStore_inv)
  show ?thesis
    using upsert_replaces [OF inv store2_def refl,
        where ?fp2.0 = binary64 and ?env2.0 = env0 and b = "''delta''" and ?md2.0 = None
          and ?cid2.0 = None and ?rid2.0 = "[]" and ?sk2.0 = True]
    by (simp add: count_def index_store2)
qed

subsection \<open>Persistence\<close>

text \<open>
  Claim C8. For every sequence of \<open>upsert\<close> calls into a store constructed from a
  path, the last of which wrote the file, a new store constructed from the same path has
  the same document ids, in the same order, each with the same content.
\<close>

theorem persistence_round_trip:
  assumes "s = foldl (upsert_call fp) (VectorStore envs f) calls"
    and "calls = [] \<or> disk_ok (c_env (last calls))"
  shows "map (\<lambda>(k, d). (k, content d)) (index (VectorStore envs' (disk s)))
           = map (\<lambda>(k, d). (k, content d)) (index s)"
proof (cases "calls = []")
  case True
  then have "s = VectorStore envs f" using assms(1) by simp
  then show ?thesis
    by (simp add: VectorStore_def load_def load_lines_summary split: option.splits)
next
  case False
  then obtain cs c where calls: "calls = cs @ [c]" by (metis rev_exhaust)
  with assms(2) have ok: "disk_ok (c_env c)" by simp
  let ?prev = "foldl (upsert_call fp) (VectorStore envs f) cs"
  have s: "s = upsert_call fp ?prev c" using assms(1) calls by simp
  have inv: "store_inv s"
    unfolding assms(1) by (rule foldl_upsert_call_inv [OF VectorStore_inv])
  have d: "disk s = Some (map (\<lambda>doc. Object (to_dict doc)) (map snd (index s)))"
    unfolding s upsert_call_def by (rule disk_upsert [OF ok])
  show ?thesis
    using inv flushed_summary [of "[]" "index s"]
    by (simp add: VectorStore_def load_def d load_lines_summary store_inv_def)
qed


theorem persistence_round_trip_witness:
  "map (\<lambda>(k, d). (k, content d)) (index (VectorStore (\<lambda>n. env0) (disk store2)))
     = [(''doc-a'', ''alpha beta''), (''doc-b'', ''gamma'')]"
proof -
  let ?c1 = "\<lparr>c_env = env0, c_id = ''doc-a'', c_content = ''alpha beta'', c_metadata = None,
              c_correlation_id = None, c_run_id = [], c_skip_embed = True\<rparr>"
  let ?c2 = "\<lparr>c_env = env0, c_id = ''doc-b'', c_content = ''gamma'', c_metadata = None,
              c_correlation_id = None, c_run_id = [], c_skip_embed = True\<rparr>"
  have 1: "store2 = foldl (upsert_call binary64) (VectorStore (\<lambda>n. env0) None) [?c1, ?c2]"
    by (simp add: store2_def store0_def upsert_call_def)
  have 2: "[?c1, ?c2] = [] \<or> disk_ok (c_env (last [?c1, ?c2]))"
    by (simp add: env0_def)
  show ?thesis
    using persistence_round_trip [OF 1 2, of "\<lambda>n. env0"]
    by (simp add: index_store2 doc_a_def doc_b_def)
qed

section \<open>The chunker\<close>

subsection \<open>Windows of a section\<close>

lemma runs_words:
  "(\<forall>c \<in> set cur. P c) \<Longrightarrow> w \<in> set (runs P cur s) \<Longrightarrow> w \<noteq> [] \<and> (\<forall>c \<in> set w. P c)"
proof (induction P cur s rule: runs.induct)
  case (1 P cur)
  then show ?case by (simp split: if_splits)
next
  case (2 P cur c cs)
  show ?case
  proof (cases "P c")
    case True
    with "2.prems" have "\<forall>x \<in> set (cur @ [c]). P x" and "w \<in> set (runs P (cur @ [c]) cs)"
      by simp_all
    then show ?thesis by (rule "2.IH"(1) [OF True])
  next
    case False
    show ?thesis
    proof (cases "cur = []")
      case True
      with False "2.prems" have "w \<in> set (runs P [] cs)" by simp
      with "2.IH"(2) [OF False True] show ?thesis by simp
    next
      case ne: False
      with False "2.prems" have "w = cur \<or> w \<in> set (runs P [] cs)" by simp
      then show ?thesis
      proof
        assume "w = cur"
        with ne "2.prems"(1) show ?thesis by simp
      next
        assume "w \<in> set (runs P [] cs)"
        with "2.IH"(3) [OF False ne] show ?thesis by simp
      qed
    qed
  qed
qed

lemma split_ws_words:
  assumes "w \<in> set (split_ws s)"
  shows "w \<noteq> [] \<and> (\<forall>c \<in> set w. \<not> is_space c)"
proof (rule runs_words [of "[]" "\<lambda>c. \<not> is_space c" w s])
  show "\<forall>c \<in> set []. \<not> is_space c" by simp
  show "w \<in> set (runs (\<lambda>c. \<not> is_space c) [] s)"
    using assms by (simp only: split_ws_def)
qed

lemma strip_nonempty: "s \<noteq> [] \<Longrightarrow> \<not> is_space (hd s) \<Longrightarrow> strip s \<noteq> []"
  by (cases s) (simp_all add: strip_def)

lemma hd_join_sp:
  "ws \<noteq> [] \<Longrightarrow> hd ws \<noteq> [] \<Longrightarrow> join_sp ws \<noteq> [] \<and> hd (join_sp ws) = hd (hd ws)"
  by (induction ws rule: join_sp.induct) simp_all

lemma strip_join_sp:
  assumes "ws \<noteq> []" "\<forall>w \<in> set ws. w \<noteq> [] \<and> (\<forall>c \<in> set w. \<not> is_space c)"
  shows "strip (join_sp ws) \<noteq> []"
proof -
  from assms(1) obtain w ws' where ws: "ws = w # ws'" by (cases ws) simp_all
  with assms(2) have w: "w \<noteq> []" "\<forall>c \<in> set w. \<not> is_space c" by simp_all
  then have "\<not> is_space (hd w)" by (cases w) simp_all
  with w(1) ws have h: "hd ws \<noteq> []" "\<not> is_space (hd (hd ws))" by simp_all
  from hd_join_sp [OF assms(1) h(1)] have "join_sp ws \<noteq> []" "hd (join_sp ws) = hd (hd ws)"
    by simp_all
  with h(2) show ?thesis by (simp add: strip_nonempty)
qed

lemma py_slice_window:
  assumes "0 \<le> start" "0 \<le> stop"
  shows "py_slice xs start stop = take (nat stop - nat start) (drop (nat start) xs)"
proof -
  have a: "norm_index (length xs) start = min (length xs) (nat start)"
    and b: "norm_index (length xs) stop = min (length xs) (nat stop)"
    using assms by (simp_all add: norm_index_def)
  show ?thesis
    unfolding py_slice_def Let_def a b
    by (cases "nat start \<le> length xs"; cases "nat stop \<le> length xs") (simp_all add: min_def)
qed


lemma n_windows_step:
  assumes "chunk_size < n" "0 < step"
  shows "n_windows n chunk_size step = Suc (n_windows (n - step) chunk_size step)"
proof -
  define m where "m = n - chunk_size - 1"
  have m: "0 \<le> m" using assms(1) by (simp add: m_def)
  have lhs: "n_windows n chunk_size step = Suc (nat ((m + step) div step))"
    using assms(1) by (simp add: n_windows_def m_def algebra_simps)
  have d: "(m + step) div step = m div step + 1"
    using assms(2) by simp
  have nn: "0 \<le> m div step"
    using m assms(2) by (simp add: pos_imp_zdiv_nonneg_iff)
  show ?thesis
  proof (cases "n - step \<le> chunk_size")
    case True
    then have "m < step" by (simp add: m_def)
    with m have "m div step = 0" by (simp add: div_pos_pos_trivial)
    with True lhs d show ?thesis by (simp add: n_windows_def)
  next
    case False
    then have "n_windows (n - step) chunk_size step = Suc (nat (m div step))"
      by (simp add: n_windows_def m_def algebra_simps)
    with lhs d nn show ?thesis by (simp add: nat_add_distrib)
  qed
qed


lemma chunk_loop_exit:
  "\<not> start < int (length words) \<Longrightarrow> chunk_loop words chunk_size overlap start chunks = Some chunks"
  by (subst chunk_loop.simps) simp

lemma chunk_loop_last:
  assumes "start < int (length words)" "int (length words) \<le> start + chunk_size"
  shows "chunk_loop words chunk_size overlap start chunks =
     Some (if strip (join_sp (py_slice words start (int (length words)))) \<noteq> []
           then chunks @ [join_sp (py_slice words start (int (length words)))] else chunks)"
proof -
  have e: "min (start + chunk_size) (int (length words)) = int (length words)"
    using assms(2) by simp
  show ?thesis
    by (subst chunk_loop.simps) (simp only: assms(1) e Let_def if_True order_refl)
qed

lemma chunk_loop_step:
  assumes "start < int (length words)" "start + chunk_size < int (length words)"
  shows "chunk_loop words chunk_size overlap start chunks =
     chunk_loop words chunk_size overlap (start + chunk_size - overlap)
       (if strip (join_sp (py_slice words start (start + chunk_size))) \<noteq> []
        then chunks @ [join_sp (py_slice words start (start + chunk_size))] else chunks)"
proof -
  have e: "min (start + chunk_size) (int (length words)) = start + chunk_size"
    using assms(2) by simp
  have ne: "\<not> int (length words) \<le> start + chunk_size"
    using assms(2) by simp
  show ?thesis
    by (subst chunk_loop.simps) (simp only: assms(1) e ne Let_def if_True if_False)
qed


lemma chunk_loop_windows_from:
  assumes ov: "0 \<le> overlap" "overlap < chunk_size"
    and good: "\<forall>w \<in> set words. w \<noteq> [] \<and> (\<forall>c \<in> set w. \<not> is_space c)"
  shows "start < length words \<Longrightarrow>
    chunk_loop words chunk_size overlap (int start) chunks =
      Some (chunks @ map (\<lambda>k. join_sp (take (nat chunk_size)
                                (drop (start + k * nat (chunk_size - overlap)) words)))
              [0..<n_windows (int (length words) - int start) chunk_size (chunk_size - overlap)])"
proof (induction "length words - start" arbitrary: start chunks rule: less_induct)
  case less
  let ?n = "int (length words)"
  let ?step = "nat (chunk_size - overlap)"
  let ?w = "join_sp (take (nat chunk_size) (drop start words))"
  have cs: "0 < chunk_size" using ov by linarith
  have lt: "int start < ?n" using less.prems by simp
  have ne: "take (nat chunk_size) (drop start words) \<noteq> []"
    using cs less.prems by simp
  have gw: "\<forall>w \<in> set (take (nat chunk_size) (drop start words)).
      w \<noteq> [] \<and> (\<forall>c \<in> set w. \<not> is_space c)"
    using good by (meson in_set_takeD in_set_dropD)
  have st: "strip ?w \<noteq> []"
    by (rule strip_join_sp [OF ne gw])
  show ?case
  proof (cases "?n \<le> int start + chunk_size")
    case True
    have slice: "py_slice words (int start) ?n = take (nat chunk_size) (drop start words)"
      using True by (simp add: py_slice_window)
    have one: "n_windows (?n - int start) chunk_size (chunk_size - overlap) = 1"
      using True by (simp add: n_windows_def)
    show ?thesis
      unfolding chunk_loop_last [OF lt True] slice one using st by simp
  next
    case False
    then have lt2: "int start + chunk_size < ?n" by simp
    have slice: "py_slice words (int start) (int start + chunk_size)
        = take (nat chunk_size) (drop start words)"
      using cs by (simp add: py_slice_window nat_add_distrib)
    let ?start' = "start + ?step"
    have s': "int start + chunk_size - overlap = int ?start'" using ov by simp
    have lt': "?start' < length words" using lt2 ov by linarith
    have dec: "length words - ?start' < length words - start" using ov less.prems by linarith
    have nw: "n_windows (?n - int start) chunk_size (chunk_size - overlap)
        = Suc (n_windows (?n - int ?start') chunk_size (chunk_size - overlap))"
    proof -
      have 1: "chunk_size < ?n - int start" using lt2 by simp
      have 2: "0 < chunk_size - overlap" using ov by simp
      have eq: "?n - int start - (chunk_size - overlap) = ?n - int ?start'"
        using ov by linarith
      show ?thesis
        using n_windows_step [OF 1 2] by (simp only: eq)
    qed
    have loop: "chunk_loop words chunk_size overlap (int start) chunks
        = chunk_loop words chunk_size overlap (int ?start') (chunks @ [?w])"
      unfolding chunk_loop_step [OF lt lt2] slice s' using st by simp
    show ?thesis
      unfolding loop less.hyps [OF dec lt'] nw
      by (simp add: map_upt_Suc add.assoc del: upt_Suc)
  qed
qed


text \<open>
  Claim C4, as amended. Within a section with at least one word, and for
  \<open>0 \<le> overlap < chunk_size\<close>, the chunker emits the windows of \<open>chunk_size\<close> words
  whose start offsets are \<open>0\<close>, \<open>step\<close>, \<open>2 * step\<close>, ... with
  \<open>step = chunk_size - overlap\<close>, up to and including the first window that reaches
  the end of the section (\<open>n_windows\<close> of them), and no window after it. In
  particular a section of 1000 words with \<open>chunk_size = 500\<close> and \<open>overlap = 50\<close>
  yields exactly 3 chunks, starting at word offsets 0, 450 and 900, the last of 100
  words.
\<close>

theorem chunk_loop_windows:
  assumes "words = split_ws sec" and "words \<noteq> []"
  shows "(0 \<le> overlap \<and> overlap < chunk_size \<longrightarrow>
            chunk_loop words chunk_size overlap 0 [] =
              Some (map (\<lambda>k. join_sp (take (nat chunk_size)
                                  (drop (k * nat (chunk_size - overlap)) words)))
                     [0..<n_windows (int (length words)) chunk_size (chunk_size - overlap)]))
       \<and> (length words = 1000 \<longrightarrow>
            chunk_loop words 500 50 0 [] =
              Some [join_sp (take 500 words), join_sp (take 500 (drop 450 words)),
                    join_sp (drop 900 words)]
            \<and> length (drop 900 words) = 100)"
proof -
  have good: "\<forall>w \<in> set words. w \<noteq> [] \<and> (\<forall>c \<in> set w. \<not> is_space c)"
    unfolding assms(1) using split_ws_words by blast
  have pos: "0 < length words" using assms(2) by simp
  have gen: "chunk_loop words cs ov 0 [] =
      Some (map (\<lambda>k. join_sp (take (nat cs) (drop (k * nat (cs - ov)) words)))
             [0..<n_windows (int (length words)) cs (cs - ov)])"
    if "0 \<le> ov" "ov < cs" for cs ov
    using chunk_loop_windows_from [OF that good pos, of "[]"] by simp
  have ex: "chunk_loop words 500 50 0 [] =
      Some [join_sp (take 500 words), join_sp (take 500 (drop 450 words)),
            join_sp (drop 900 words)]
      \<and> length (drop 900 words) = 100" if len: "length words = 1000"
  proof -
    have n: "n_windows 1000 500 450 = 3" by (simp add: n_windows_def)
    have u: "[0..<3] = [0, 1, 2]" by (simp add: upt_rec)
    from gen [of 50 500] show ?thesis
      by (simp add: len n u)
  qed
  from gen ex show ?thesis by blast
qed

lemma split_ws_replicate: "split_ws (concat (replicate n ''w '')) = replicate n ''w''"
  by (induction n) (simp_all add: split_ws_def is_space_def)

lemma split_ws_abcde: "split_ws ''a b c d e'' = [''a'', ''b'', ''c'', ''d'', ''e'']"
  by (simp add: split_ws_def is_space_def)

theorem chunk_loop_windows_witness:
  "chunk_loop (split_ws ''a b c d e'') 2 1 0 [] = Some [''a b'', ''b c'', ''c d'', ''d e'']
   \<and> chunk_loop (split_ws (concat (replicate 1000 ''w ''))) 500 50 0 []
       = Some [join_sp (replicate 500 ''w''), join_sp (replicate 500 ''w''),
               join_sp (replicate 100 ''w'')]"
proof -
  have n: "n_windows 5 2 1 = 4" by (simp add: n_windows_def)
  have u: "[0..<4] = [0, 1, 2, 3]" by (simp add: upt_rec)
  have 1: "chunk_loop (split_ws ''a b c d e'') 2 1 0 [] = Some [''a b'', ''b c'', ''c d'', ''d e'']"
    using chunk_loop_windows [OF refl, of "''a b c d e''" 1 2]
    by (simp add: split_ws_abcde n u)
  have ne: "split_ws (concat (replicate 1000 ''w '')) \<noteq> []"
    by (simp only: split_ws_replicate) simp
  have 2: "chunk_loop (split_ws (concat (replicate 1000 ''w ''))) 500 50 0 []
       = Some [join_sp (replicate 500 ''w''), join_sp (replicate 500 ''w''),
               join_sp (replicate 100 ''w'')]"
    using chunk_loop_windows [OF refl ne, of 1 2]
    by (simp add: split_ws_replicate)
  from 1 2 show ?thesis by simp
qed

lemma split_ws_abc: "split_ws ''a b c'' = [''a'', ''b'', ''c'']"
  by (simp add: split_ws_def is_space_def)

text \<open>
  The claim as stated fails: the loop ends with the first window that reaches the end
  of the section (\<^verbatim>\<open>if end >= len(words): break\<close>), not when the next window
  would start at or past it. For the section \<^verbatim>\<open>a b c\<close> with \<open>chunk_size = 2\<close> and
  \<open>overlap = 1\<close> the window that starts at offset 2 is not emitted.
\<close>

theorem spec_windows_counterexample:
  "chunk_loop (split_ws ''a b c'') 2 1 0 [] = Some [''a b'', ''b c'']
   \<and> spec_windows (split_ws ''a b c'') 2 (2 - 1) 0 = [''a b'', ''b c'', ''c'']"
proof -
  have good: "\<forall>w \<in> set [''a'', ''b'', ''c'']. w \<noteq> [] \<and> (\<forall>c \<in> set w. \<not> is_space c)"
    by (simp add: is_space_def)
  have n: "n_windows 3 2 1 = 2" by (simp add: n_windows_def)
  have u: "[0..<2] = [0, 1]" by (simp add: upt_rec)
  have 1: "chunk_loop [''a'', ''b'', ''c''] 2 1 0 [] = Some [''a b'', ''b c'']"
    using chunk_loop_windows_from [of 1 2 "[''a'', ''b'', ''c'']" 0 "[]", OF _ _ good]
    by (simp add: n u)
  have 2: "spec_windows [''a'', ''b'', ''c''] 2 (2 - 1) 0 = [''a b'', ''b c'', ''c'']"
    by simp
  from 1 2 show ?thesis by (simp only: split_ws_abc)
qed

subsection \<open>Termination\<close>

lemma chunk_loop_terminates:
  assumes "overlap < chunk_size"
  shows "\<exists>r. chunk_loop words chunk_size overlap start chunks = Some r"
proof (induction "nat (int (length words) - start)" arbitrary: start chunks rule: less_induct)
  case less
  show ?case
  proof (cases "start < int (length words)")
    case False
    then show ?thesis by (subst chunk_loop.simps) simp
  next
    case True
    let ?e = "min (start + chunk_size) (int (length words))"
    show ?thesis
    proof (cases "?e \<ge> int (length words)")
      case True
      with \<open>start < int (length words)\<close> show ?thesis
        by (subst chunk_loop.simps) (simp add: Let_def)
    next
      case False
      then have e: "?e = start + chunk_size" by simp
      have "nat (int (length words) - (?e - overlap)) < nat (int (length words) - start)"
        using assms True e by linarith
      from less [OF this] False True show ?thesis
        by (subst chunk_loop.simps) (simp add: Let_def)
    qed
  qed
qed

lemma chunk_loop_diverges_aux:
  assumes "chunk_loop words chunk_size overlap start chunks = Some r"
  shows "\<not> (chunk_size \<le> overlap \<and> start \<le> 0 \<and> chunk_size < int (length words)
            \<and> words \<noteq> [])"
proof (rule chunk_loop.raw_induct
    [where P = "\<lambda>words chunk_size overlap start chunks r.
       \<not> (chunk_size \<le> overlap \<and> start \<le> 0 \<and> chunk_size < int (length words)
          \<and> words \<noteq> [])", OF _ assms])
  fix loop :: "string list \<Rightarrow> int \<Rightarrow> int \<Rightarrow> int \<Rightarrow> string list \<Rightarrow> string list option"
  fix words :: "string list" and chunk_size overlap start :: int
    and chunks r :: "string list"
  assume IH: "\<And>words chunk_size overlap start chunks r.
      loop words chunk_size overlap start chunks = Some r \<Longrightarrow>
      \<not> (chunk_size \<le> overlap \<and> start \<le> 0 \<and> chunk_size < int (length words)
         \<and> words \<noteq> [])"
  assume step:
    "(if start < int (length words)
      then let end' = min (start + chunk_size) (int (length words));
               chunk = join_sp (py_slice words start end');
               chunks' = if strip chunk \<noteq> [] then chunks @ [chunk] else chunks
           in if int (length words) \<le> end' then Some chunks'
              else loop words chunk_size overlap (end' - overlap) chunks'
      else Some chunks) = Some r"
  show "\<not> (chunk_size \<le> overlap \<and> start \<le> 0 \<and> chunk_size < int (length words)
          \<and> words \<noteq> [])"
  proof
    assume inv: "chunk_size \<le> overlap \<and> start \<le> 0 \<and> chunk_size < int (length words)
      \<and> words \<noteq> []"
    then have "0 < length words" by simp
    with inv have lt: "start < int (length words)" by linarith
    from inv have e: "min (start + chunk_size) (int (length words)) = start + chunk_size"
      by linarith
    from inv have ne: "\<not> int (length words) \<le> start + chunk_size" by linarith
    from step lt e ne obtain chunks' where
      "loop words chunk_size overlap (start + chunk_size - overlap) chunks' = Some r"
      by (simp add: Let_def split: if_splits)
    from IH [OF this] inv show False by linarith
  qed
qed

lemma chunk_loop_diverges:
  assumes "chunk_size \<le> overlap" "chunk_size < int (length words)" "words \<noteq> []"
  shows "chunk_loop words chunk_size overlap 0 chunks = None"
proof (cases "chunk_loop words chunk_size overlap 0 chunks")
  case None
  then show ?thesis .
next
  case (Some r)
  from chunk_loop_diverges_aux [OF Some] assms show ?thesis by simp
qed

lemma chunk_sections_terminates:
  assumes "overlap < chunk_size"
  shows "\<exists>r. chunk_sections sections chunk_size overlap chunks = Some r"
proof (induction sections arbitrary: chunks)
  case Nil
  then show ?case by simp
next
  case (Cons sec secs)
  show ?case
  proof (cases "split_ws sec = []")
    case True
    with Cons show ?thesis by simp
  next
    case False
    obtain r where "chunk_loop (split_ws sec) chunk_size overlap 0 chunks = Some r"
      using chunk_loop_terminates [OF assms] by blast
    with False Cons show ?thesis by (simp add: Let_def)
  qed
qed

lemma chunk_sections_diverges:
  assumes "chunk_size \<le> overlap"
    and "\<exists>sec \<in> set sections. split_ws sec \<noteq> [] \<and> chunk_size < int (length (split_ws sec))"
  shows "chunk_sections sections chunk_size overlap chunks = None"
  using assms(2)
proof (induction sections arbitrary: chunks)
  case Nil
  then show ?case by simp
next
  case (Cons sec secs)
  show ?case
  proof (cases "split_ws sec \<noteq> [] \<and> chunk_size < int (length (split_ws sec))")
    case True
    then have "chunk_loop (split_ws sec) chunk_size overlap 0 chunks = None"
      using chunk_loop_diverges [OF assms(1)] by blast
    with True show ?thesis by (simp add: Let_def)
  next
    case False
    with Cons.prems
    have "\<exists>sec \<in> set secs. split_ws sec \<noteq> [] \<and> chunk_size < int (length (split_ws sec))"
      by auto
    from Cons.IH [OF this] show ?thesis
      by (simp add: Let_def split: option.splits)
  qed
qed

text \<open>
  Claim C10. The chunker terminates on every input text whenever
  \<open>overlap < chunk_size\<close>, as with the defaults \<open>512\<close> and \<open>64\<close>. This
  precondition is necessary: for a window of \<open>chunk_size\<close> words (a number that is
  not negative) with \<open>chunk_size \<le> overlap\<close>, when some section contains more than
  \<open>chunk_size\<close> words the window start never advances and the chunker does not
  terminate.
\<close>

theorem chunk_text_termination:
  "(overlap < chunk_size \<longrightarrow> (\<exists>r. chunk_text text chunk_size overlap = Some r))
   \<and> (0 \<le> chunk_size \<and> chunk_size \<le> overlap
        \<and> (\<exists>sec \<in> set (heading_split text). chunk_size < int (length (split_ws sec)))
       \<longrightarrow> chunk_text text chunk_size overlap = None)"
proof (intro conjI impI)
  assume "overlap < chunk_size"
  from chunk_sections_terminates [OF this]
  obtain r where "chunk_sections (heading_split text) chunk_size overlap [] = Some r" by blast
  then show "\<exists>r. chunk_text text chunk_size overlap = Some r"
    by (simp add: chunk_text_def)
next
  assume a: "0 \<le> chunk_size \<and> chunk_size \<le> overlap
        \<and> (\<exists>sec \<in> set (heading_split text). chunk_size < int (length (split_ws sec)))"
  then obtain sec where sec: "sec \<in> set (heading_split text)"
    and long: "chunk_size < int (length (split_ws sec))" by blast
  from a long have "split_ws sec \<noteq> []" by auto
  with a sec long have "chunk_sections (heading_split text) chunk_size overlap [] = None"
    using chunk_sections_diverges by blast
  then show "chunk_text text chunk_size overlap = None"
    by (simp add: chunk_text_def)
qed

theorem chunk_text_termination_witness:
  "(\<exists>r. chunk_text ''a b c'' 2 1 = Some r) \<and> (\<exists>r. chunk_text ''a b c'' 512 64 = Some r)
   \<and> chunk_text ''a b c'' 2 2 = None"
proof -
  have hs: "heading_split ''a b c'' = [''a b c'']"
    by (simp add: heading_split_def match_heading_def)
  have sw: "split_ws ''a b c'' = [''a'', ''b'', ''c'']"
    by (simp add: split_ws_def is_space_def)
  show ?thesis
    using chunk_text_termination [of 1 2 "''a b c''"] chunk_text_termination [of 2 2 "''a b c''"]
      chunk_text_termination [of 64 512 "''a b c''"]
    by (simp add: hs sw)
qed

subsection \<open>Sections\<close>

lemma match_heading_Some:
  assumes "match_heading s = Some m"
  shows "0 < m \<and> m \<le> length s \<and> is_heading_marker (take m s)"
proof -
  let ?n = "length (takeWhile (\<lambda>c. c = CHR ''#'') s)"
  from assms obtain c cs where n: "1 \<le> ?n" "?n \<le> 6" and d: "drop ?n s = c # cs"
    and sp: "is_space c" and m: "m = Suc ?n"
    by (auto simp: match_heading_def Let_def split: if_splits list.splits)
  from d have lt: "?n < length s"
    by (cases "?n < length s") simp_all
  from hd_drop_conv_nth [OF lt] d have c: "s ! ?n = c" by simp
  have tk: "take m s = takeWhile (\<lambda>c. c = CHR ''#'') s @ [c]"
  proof -
    have "take (Suc ?n) s = take ?n s @ [s ! ?n]"
      by (rule take_Suc_conv_app_nth [OF lt])
    also have "take ?n s = takeWhile (\<lambda>c. c = CHR ''#'') s"
      by (rule takeWhile_eq_take [symmetric])
    finally show ?thesis by (simp only: m c)
  qed
  have "list_all (\<lambda>c. c = CHR ''#'') (takeWhile (\<lambda>c. c = CHR ''#'') s)"
    by (simp add: list_all_iff) (meson set_takeWhileD)
  with n sp have "is_heading_marker (takeWhile (\<lambda>c. c = CHR ''#'') s @ [c])"
    by (simp add: is_heading_marker_def)
  then have "is_heading_marker (take m s)" by (simp only: tk)
  with lt m show ?thesis by simp
qed

lemma weave_re_split:
  "weave (re_split bol cur s) (re_findall bol s) = cur @ s
   \<and> length (re_split bol cur s) = Suc (length (re_findall bol s))
   \<and> list_all is_heading_marker (re_findall bol s)"
proof (induction bol s arbitrary: cur rule: re_findall.induct)
  case (1 bol)
  then show ?case by simp
next
  case (2 bol c cs)
  show ?case
  proof (cases "if bol then match_heading (c # cs) else None")
    case None
    with "2.IH"(1) [OF None, of "cur @ [c]"] show ?thesis by simp
  next
    case (Some m)
    then have mh: "match_heading (c # cs) = Some m" by (simp split: if_splits)
    from match_heading_Some [OF mh] have mk: "is_heading_marker (take m (c # cs))" by simp
    from "2.IH"(2) [OF Some, of "[]"] mk Some show ?thesis by simp
  qed
qed


lemma line_heading_positions_Cons:
  "line_heading_positions bol (c # cs) =
     (if bol \<and> match_heading (c # cs) \<noteq> None then [0] else [])
     @ map Suc (line_heading_positions (c = CHR 0x0A) cs)"
proof -
  have upt: "[0..<length (c # cs)] = 0 # map Suc [0..<length cs]"
    by (simp add: upt_conv_Cons map_Suc_upt del: upt_Suc)
  show ?thesis
    unfolding line_heading_positions_def upt
    by (simp add: filter_map comp_def nth_Cons' cong: filter_cong)
qed

lemma line_heading_positions_hashes:
  "line_heading_positions False (replicate k (CHR ''#'') @ w # rest) =
     map (\<lambda>i. i + Suc k) (line_heading_positions (w = CHR 0x0A) rest)"
  by (induction k) (simp_all add: line_heading_positions_Cons comp_def)

lemma match_heading_shape:
  assumes "match_heading s = Some m"
  shows "\<exists>k w rest. s = replicate (Suc k) (CHR ''#'') @ w # rest \<and> m = Suc (Suc k)"
proof -
  let ?P = "\<lambda>c. c = CHR ''#''"
  let ?n = "length (takeWhile ?P s)"
  from assms obtain w rest where n: "1 \<le> ?n" and d: "drop ?n s = w # rest" and m: "m = Suc ?n"
    by (auto simp: match_heading_def Let_def split: if_splits list.splits)
  have tw: "takeWhile ?P s = replicate ?n (CHR ''#'')"
    by (rule replicate_length_same [symmetric]) (meson set_takeWhileD)
  have "s = take ?n s @ drop ?n s" by simp
  also have "take ?n s = takeWhile ?P s" by (rule takeWhile_eq_take [symmetric])
  finally have "s = replicate ?n (CHR ''#'') @ w # rest" using tw d by simp
  moreover from n obtain k where "?n = Suc k" by (cases ?n) simp_all
  ultimately show ?thesis using m by metis
qed

lemma line_heading_positions_match:
  assumes "match_heading s = Some m"
  shows "line_heading_positions True s =
     0 # map (\<lambda>i. i + m) (line_heading_positions (last (take m s) = CHR 0x0A) (drop m s))"
proof -
  from match_heading_shape [OF assms] obtain k w rest
    where s: "s = replicate (Suc k) (CHR ''#'') @ w # rest" and m: "m = Suc (Suc k)" by blast
  have s': "s = CHR ''#'' # (replicate k (CHR ''#'') @ w # rest)" using s by simp
  have tk: "take m s = replicate (Suc k) (CHR ''#'') @ [w]" and dr: "drop m s = rest"
    unfolding s m by simp_all
  have "line_heading_positions True s
      = 0 # map Suc (line_heading_positions False (replicate k (CHR ''#'') @ w # rest))"
    using assms by (subst s', subst line_heading_positions_Cons) (simp add: s' [symmetric])
  then show ?thesis
    unfolding tk dr by (simp add: line_heading_positions_hashes m comp_def)
qed

lemma length_take_match: "match_heading s = Some m \<Longrightarrow> length (take m s) = m"
  using match_heading_shape [of s m] by auto

lemma marker_offsets_re_split:
  "marker_offsets n (re_split bol cur s) (re_findall bol s)
     = map (\<lambda>i. n + length cur + i) (line_heading_positions bol s)"
proof (induction bol s arbitrary: cur n rule: re_findall.induct)
  case (1 bol)
  then show ?case by (simp add: line_heading_positions_def)
next
  case (2 bol c cs)
  show ?case
  proof (cases "if bol then match_heading (c # cs) else None")
    case None
    then have "line_heading_positions bol (c # cs)
        = map Suc (line_heading_positions (c = CHR 0x0A) cs)"
      by (simp add: line_heading_positions_Cons split: if_splits)
    with "2.IH"(1) [OF None, of n "cur @ [c]"] None show ?thesis by (simp add: comp_def)
  next
    case (Some m)
    then have bol: "bol" and mh: "match_heading (c # cs) = Some m" by (simp_all split: if_splits)
    note pos = line_heading_positions_match [OF mh]
    from "2.IH"(2) [OF Some, of "n + length cur + m" "[]"] Some bol pos length_take_match [OF mh]
    show ?thesis by (simp add: comp_def add.commute add.left_commute)
  qed
qed

lemma chunk_loop_acc_aux:
  assumes "chunk_loop words chunk_size overlap start chunks = Some r"
  shows "\<exists>rest. r = chunks @ rest
           \<and> (\<forall>chunks'. chunk_loop words chunk_size overlap start chunks' = Some (chunks' @ rest))"
proof (rule chunk_loop.raw_induct
    [where P = "\<lambda>words chunk_size overlap start chunks r.
       \<exists>rest. r = chunks @ rest
         \<and> (\<forall>chunks'. chunk_loop words chunk_size overlap start chunks' = Some (chunks' @ rest))",
     OF _ assms])
  fix loop :: "string list \<Rightarrow> int \<Rightarrow> int \<Rightarrow> int \<Rightarrow> string list \<Rightarrow> string list option"
  fix words :: "string list" and chunk_size overlap start :: int
    and chunks r :: "string list"
  assume IH: "\<And>words chunk_size overlap start chunks r.
      loop words chunk_size overlap start chunks = Some r \<Longrightarrow>
      \<exists>rest. r = chunks @ rest
        \<and> (\<forall>chunks'. chunk_loop words chunk_size overlap start chunks' = Some (chunks' @ rest))"
  assume step:
    "(if start < int (length words)
      then let end' = min (start + chunk_size) (int (length words));
               chunk = join_sp (py_slice words start end');
               chunks' = if strip chunk \<noteq> [] then chunks @ [chunk] else chunks
           in if int (length words) \<le> end' then Some chunks'
              else loop words chunk_size overlap (end' - overlap) chunks'
      else Some chunks) = Some r"
  let ?n = "int (length words)"
  show "\<exists>rest. r = chunks @ rest
       \<and> (\<forall>chunks'. chunk_loop words chunk_size overlap start chunks' = Some (chunks' @ rest))"
  proof (cases "start < ?n")
    case False
    with step have "r = chunks @ []" by simp
    moreover have "\<forall>chunks'. chunk_loop words chunk_size overlap start chunks' = Some (chunks' @ [])"
      using chunk_loop_exit [OF False] by simp
    ultimately show ?thesis by blast
  next
    case lt: True
    show ?thesis
    proof (cases "?n \<le> start + chunk_size")
      case True
      let ?c = "join_sp (py_slice words start ?n)"
      let ?rest = "if strip ?c \<noteq> [] then [?c] else []"
      have e: "min (start + chunk_size) ?n = ?n" using True by simp
      from step lt have "r = chunks @ ?rest"
        by (simp add: Let_def e split: if_splits)
      moreover have "\<forall>chunks'. chunk_loop words chunk_size overlap start chunks' = Some (chunks' @ ?rest)"
        using chunk_loop_last [OF lt True] by simp
      ultimately show ?thesis by blast
    next
      case False
      then have lt2: "start + chunk_size < ?n" by simp
      let ?c = "join_sp (py_slice words start (start + chunk_size))"
      let ?pre = "if strip ?c \<noteq> [] then [?c] else []"
      have e: "min (start + chunk_size) ?n = start + chunk_size" using lt2 by simp
      from step lt lt2
      have "loop words chunk_size overlap (start + chunk_size - overlap) (chunks @ ?pre) = Some r"
        by (simp add: Let_def e split: if_splits)
      from IH [OF this] obtain rest where r: "r = (chunks @ ?pre) @ rest"
        and all: "\<forall>chunks'. chunk_loop words chunk_size overlap (start + chunk_size - overlap) chunks'
           = Some (chunks' @ rest)"
        by blast
      have "chunk_loop words chunk_size overlap start chunks' = Some (chunks' @ (?pre @ rest))"
        for chunks'
        using chunk_loop_step [OF lt lt2, of overlap chunks'] all by simp
      with r show ?thesis by (metis append.assoc)
    qed
  qed
qed

lemma chunk_loop_acc:
  "chunk_loop words chunk_size overlap start chunks
     = map_option (\<lambda>rest. chunks @ rest) (chunk_loop words chunk_size overlap start [])"
proof (cases "chunk_loop words chunk_size overlap start []")
  case None
  have "chunk_loop words chunk_size overlap start chunks = None"
  proof (cases "chunk_loop words chunk_size overlap start chunks")
    case (Some r)
    from chunk_loop_acc_aux [OF Some] obtain rest where
      "chunk_loop words chunk_size overlap start [] = Some ([] @ rest)" by blast
    with None show ?thesis by simp
  qed simp
  with None show ?thesis by simp
next
  case (Some rest)
  from chunk_loop_acc_aux [OF Some] obtain rest' where "rest = [] @ rest'"
    and "chunk_loop words chunk_size overlap start chunks = Some (chunks @ rest')" by blast
  with Some show ?thesis by simp
qed

lemma chunk_sections_independent:
  "chunk_sections secs chunk_size overlap chunks
     = map_option (\<lambda>rs. chunks @ concat rs)
         (those (map (\<lambda>sec. section_chunks sec chunk_size overlap) secs))"
proof (induction secs arbitrary: chunks)
  case Nil
  then show ?case by simp
next
  case (Cons sec secs)
  show ?case
  proof (cases "split_ws sec = []")
    case True
    then show ?thesis
      by (simp add: Cons.IH section_chunks_def option.map_comp comp_def)
  next
    case False
    show ?thesis
    proof (cases "chunk_loop (split_ws sec) chunk_size overlap 0 []")
      case None
      with False chunk_loop_acc [of "split_ws sec" chunk_size overlap 0 chunks]
      show ?thesis by (simp add: section_chunks_def)
    next
      case (Some r)
      with False chunk_loop_acc [of "split_ws sec" chunk_size overlap 0 chunks]
      show ?thesis
        by (simp add: Cons.IH section_chunks_def option.map_comp comp_def)
    qed
  qed
qed


text \<open>
  Claim C5, as amended. The chunker splits the input text at its heading markers and
  discards only the markers. A marker is 1 to 6 \<^verbatim>\<open>#\<close> characters and the one
  whitespace character after them; the markers removed are those at the heading
  positions of the text, all of them and no others: the text is exactly its sections
  with the markers between them, and the offsets at which the markers start are the
  offsets at which a line begins with 1 to 6 \<^verbatim>\<open>#\<close> characters followed by
  whitespace. So the rest of a heading line stays in the section after its marker.
  Each section is processed independently: the chunks of the text are the chunks of
  its sections, each chunked on its own, in order (or the fallback chunk when there are
  none), and the chunker runs forever exactly when it does on some section.
\<close>

theorem heading_split_sections:
  "weave (heading_split text) (heading_markers text) = text
   \<and> length (heading_split text) = Suc (length (heading_markers text))
   \<and> list_all is_heading_marker (heading_markers text)
   \<and> marker_offsets 0 (heading_split text) (heading_markers text) = heading_positions text
   \<and> chunk_text text chunk_size overlap =
       map_option
         (\<lambda>rs. if concat rs \<noteq> [] then concat rs
               else [py_slice text 0 (chunk_size * CHUNK_FALLBACK_MULTIPLIER)])
         (those (map (\<lambda>sec. section_chunks sec chunk_size overlap) (heading_split text)))"
proof -
  have 1: "weave (heading_split text) (heading_markers text) = text
     \<and> length (heading_split text) = Suc (length (heading_markers text))
     \<and> list_all is_heading_marker (heading_markers text)"
    using weave_re_split [of True "[]" "text"]
    by (simp add: heading_split_def heading_markers_def)
  have 2: "chunk_text text chunk_size overlap =
       map_option
         (\<lambda>rs. if concat rs \<noteq> [] then concat rs
               else [py_slice text 0 (chunk_size * CHUNK_FALLBACK_MULTIPLIER)])
         (those (map (\<lambda>sec. section_chunks sec chunk_size overlap) (heading_split text)))"
    by (cases "those (map (\<lambda>sec. section_chunks sec chunk_size overlap) (heading_split text))")
      (simp_all add: chunk_text_def chunk_sections_independent)
  have 3: "marker_offsets 0 (heading_split text) (heading_markers text) = heading_positions text"
    using marker_offsets_re_split [of 0 True "[]" "text"]
    by (simp add: heading_split_def heading_markers_def heading_positions_def)
  from 1 2 3 show ?thesis by simp
qed

lemma heading_split_title:
  "heading_split ''# Title\<newline>body'' = [[], ''Title\<newline>body'']"
  by (simp add: heading_split_def match_heading_def is_space_def)

lemma heading_markers_title: "heading_markers ''# Title\<newline>body'' = [''# '']"
  by (simp add: heading_markers_def match_heading_def is_space_def)

lemma split_ws_title: "split_ws ''Title\<newline>body'' = [''Title'', ''body'']"
  by (simp add: split_ws_def is_space_def)

lemma split_ws_Nil: "split_ws [] = []"
  by (simp add: split_ws_def)

lemma chunk_loop_title: "chunk_loop [''Title'', ''body''] 512 64 0 chunks = Some (chunks @ [''Title body''])"
  by (subst chunk_loop_last) (simp_all add: py_slice_def norm_index_def strip_def is_space_def)

lemma chunk_text_title: "chunk_text ''# Title\<newline>body'' 512 64 = Some [''Title body'']"
  by (simp add: chunk_text_def heading_split_title split_ws_title chunk_loop_title split_ws_Nil)

lemma heading_positions_title: "heading_positions ''# Title\<newline>body'' = [0]"
  by (simp add: heading_positions_def line_heading_positions_def match_heading_def is_space_def
      upt_rec)

theorem heading_split_sections_witness:
  "weave [[], ''Title\<newline>body''] [''# ''] = ''# Title\<newline>body''
   \<and> is_heading_marker ''# ''
   \<and> marker_offsets 0 [[], ''Title\<newline>body''] [''# ''] = [0]
   \<and> heading_positions ''# Title\<newline>body'' = [0]
   \<and> those [section_chunks [] 512 64, section_chunks ''Title\<newline>body'' 512 64]
       = Some [[], [''Title body'']]"
  using heading_split_sections [of "''# Title\<newline>body''" 512 64]
  by (simp add: heading_split_title heading_markers_title chunk_text_title section_chunks_def
      split_ws_title chunk_loop_title split_ws_Nil heading_positions_title)

text \<open>
  The claim as stated fails: the words of a heading line are not discarded. For the
  text \<^verbatim>\<open># Title\<close>, newline, \<^verbatim>\<open>body\<close> the only chunk is
  \<^verbatim>\<open>Title body\<close>, which contains the word \<^verbatim>\<open>Title\<close> of the heading line.
\<close>

theorem heading_words_counterexample:
  "chunk_text ''# Title\<newline>body'' 512 64 = Some [''Title body'']
   \<and> ''Title'' \<in> set (heading_line_words ''# Title\<newline>body'')
   \<and> ''Title'' \<in> set (split_ws ''Title body'')"
proof -
  have "heading_line_words ''# Title\<newline>body'' = [''#'', ''Title'']"
    by (simp add: heading_line_words_def match_heading_def split_ws_def is_space_def)
  moreover have "split_ws ''Title body'' = [''Title'', ''body'']"
    by (simp add: split_ws_def is_space_def)
  ultimately show ?thesis by (simp add: chunk_text_title)
qed

section \<open>Rehydration and failing sources\<close>

text \<open>
  When every telemetry file that matches \<^verbatim>\<open>run-*.json\<close> can be
  \<^verbatim>\<open>stat\<close>-ed (or telemetry is not included, or its directory is absent),
  \<open>rehydrate\<close> returns a bundle, whatever the state of the store, the snapshot and
  the index.
\<close>

lemma stat_keys_Inr:
  "list_all (\<lambda>p. st_mtime (snd p) \<noteq> None) ps \<Longrightarrow> \<exists>keyed. stat_keys ps = Inr keyed"
proof (induction ps)
  case Nil
  then show ?case by simp
next
  case (Cons p ps)
  then obtain t keyed where "st_mtime (snd p) = Some t" "stat_keys ps = Inr keyed" by auto
  then show ?case by simp
qed

lemma load_recent_telemetry_Inr:
  assumes "case TELEMETRY_DIR src of None \<Rightarrow> True
           | Some entries \<Rightarrow> list_all (\<lambda>p. st_mtime (snd p) \<noteq> None)
                              (filter (\<lambda>p. glob_match (fst p)) entries)"
  shows "\<exists>rs. load_recent_telemetry src max_entries = Inr rs"
proof (cases "TELEMETRY_DIR src")
  case None
  then show ?thesis by (simp add: load_recent_telemetry_def)
next
  case (Some entries)
  with assms obtain keyed where "stat_keys (filter (\<lambda>p. glob_match (fst p)) entries) = Inr keyed"
    using stat_keys_Inr by fastforce
  with Some show ?thesis by (simp add: load_recent_telemetry_def Let_def)
qed

lemma rehydrate_returns:
  assumes "include_telemetry \<Longrightarrow>
           (case TELEMETRY_DIR src of None \<Rightarrow> True
            | Some entries \<Rightarrow> list_all (\<lambda>p. st_mtime (snd p) \<noteq> None)
                               (filter (\<lambda>p. glob_match (fst p)) entries))"
  shows "\<exists>b. rehydrate fp env src q top_k include_active_memory include_telemetry
                 include_org_index st = Inr b"
proof -
  obtain rs where
    "(if include_telemetry then load_recent_telemetry src 5 else Inr []) = Inr rs"
    using load_recent_telemetry_Inr [OF assms, of 5] by (cases include_telemetry) auto
  then show ?thesis
    by (simp add: rehydrate_def Let_def split: prod.splits)
qed

text \<open>
  Claim C6 says that \<open>rehydrate\<close> never raises and always returns a bundle. The code
  does not keep it: the sort key \<^verbatim>\<open>p.stat().st_mtime\<close> in
  \<^verbatim>\<open>_load_recent_telemetry\<close> is computed outside every \<^verbatim>\<open>try\<close>, so with a
  telemetry entry \<^verbatim>\<open>run-1.json\<close> that cannot be \<^verbatim>\<open>stat\<close>-ed the
  \<^verbatim>\<open>OSError\<close> leaves \<open>rehydrate\<close>. (\<^verbatim>\<open>_load_active_memory\<close> does catch
  the \<^verbatim>\<open>OSError\<close> of its own \<^verbatim>\<open>stat\<close>.)
\<close>

theorem rehydrate_raises:
  "rehydrate fp env0 sources_dangling ''plan a new discovery run'' 10 True True True None
     = Inl OSError"
proof -
  have "glob_match ''run-1.json''" by (simp add: glob_match_def)
  then have "load_recent_telemetry sources_dangling 5 = Inl OSError"
    by (simp add: load_recent_telemetry_def sources_dangling_def)
  then show ?thesis
    by (simp add: rehydrate_def Let_def split: prod.splits)
qed

end
